theory Spec2Isabelle
  imports Main "HOL-Library.Multiset"
begin

section \<open>Python strings\<close>

text \<open>
  A Python \<open>str\<close> is modelled as a \<open>string\<close>: a list of characters whose code points
  lie in 0..255. The helper functions below are the \<open>str\<close> methods the sources call.
\<close>

definition py_space_chars :: "char list" where
  \<comment> \<open>the code points below 256 for which \<open>str.isspace\<close> holds; the class \<open>\s\<close> of \<open>re\<close>\<close>
  "py_space_chars =
     [CHR 0x09, CHR 0x0A, CHR 0x0B, CHR 0x0C, CHR 0x0D,
      CHR 0x1C, CHR 0x1D, CHR 0x1E, CHR 0x1F, CHR 0x20, CHR 0x85, CHR 0xA0]"

definition is_space :: "char \<Rightarrow> bool" where
  "is_space c = (c \<in> set py_space_chars)"

definition is_digit :: "char \<Rightarrow> bool" where
  \<comment> \<open>the class \<open>\d\<close>: below 256 the decimal digits are the ASCII ones\<close>
  "is_digit c = (c \<in> set ''0123456789'')"

definition is_upper_AZ :: "char \<Rightarrow> bool" where
  \<comment> \<open>the class \<open>[A-Z]\<close>\<close>
  "is_upper_AZ c = (c \<in> set ''ABCDEFGHIJKLMNOPQRSTUVWXYZ'')"

definition lower_ascii :: "char \<Rightarrow> char" where
  "lower_ascii c =
     (case map_of (zip ''ABCDEFGHIJKLMNOPQRSTUVWXYZ'' ''abcdefghijklmnopqrstuvwxyz'') c of
        Some l \<Rightarrow> l
      | None \<Rightarrow> c)"

definition py_strip :: "string \<Rightarrow> string" where
  \<comment> \<open>\<open>s.strip()\<close>\<close>
  "py_strip s = rev (dropWhile is_space (rev (dropWhile is_space s)))"

definition startswith :: "string \<Rightarrow> string \<Rightarrow> bool" where
  \<comment> \<open>\<open>s.startswith(p)\<close>\<close>
  "startswith s p = (take (length p) s = p)"

definition startswith_any :: "string \<Rightarrow> string list \<Rightarrow> bool" where
  \<comment> \<open>\<open>s.startswith((p1, p2, ...))\<close>\<close>
  "startswith_any s ps = (\<exists>p \<in> set ps. startswith s p)"

definition py_slice :: "string \<Rightarrow> nat \<Rightarrow> nat \<Rightarrow> string" where
  \<comment> \<open>\<open>s[a:-b]\<close> for \<open>b > 0\<close>: the stop index \<open>len(s) - b\<close> is clamped at 0\<close>
  "py_slice s a b = drop a (take (length s - b) s)"

fun contains :: "string \<Rightarrow> string \<Rightarrow> bool" where
  \<comment> \<open>\<open>sub in s\<close>\<close>
  "contains [] sub = (sub = [])"
| "contains (c # cs) sub = (startswith (c # cs) sub \<or> contains cs sub)"

fun split_nl :: "string \<Rightarrow> string list" where
  \<comment> \<open>\<open>s.split('\n')\<close>: always at least one piece\<close>
  "split_nl [] = [[]]"
| "split_nl (c # cs) =
     (if c = CHR 0x0A then [] # split_nl cs
      else (case split_nl cs of [] \<Rightarrow> [[c]] | l # ls \<Rightarrow> (c # l) # ls))"

fun join_nl :: "string list \<Rightarrow> string" where
  \<comment> \<open>\<open>"\n".join(parts)\<close>\<close>
  "join_nl [] = []"
| "join_nl [p] = p"
| "join_nl (p # q # ps) = p @ CHR 0x0A # join_nl (q # ps)"

definition digit_val :: "char \<Rightarrow> int" where
  "digit_val c = int (of_char c) - 48"

definition dec_val :: "string \<Rightarrow> int" where
  \<comment> \<open>the value of a run of decimal digits\<close>
  "dec_val ds = foldl (\<lambda>n c. 10 * n + digit_val c) 0 ds"

definition int_max_str_digits :: nat where
  \<comment> \<open>CPython's default limit on the length of a decimal string given to \<open>int\<close>\<close>
  "int_max_str_digits = 4300"

definition py_int :: "string \<Rightarrow> int option" where
  \<comment> \<open>\<open>int(ds)\<close> on a non-empty run of digits; \<open>None\<close> is the ValueError of the limit\<close>
  "py_int ds = (if length ds > int_max_str_digits then None else Some (dec_val ds))"


section \<open>Regular expressions\<close>

text \<open>
  The patterns of the sources are sequences of single characters and greedy repetitions
  of a character class, with at most one capturing group around a repetition, and with
  alternatives at top level only. \<open>re.search\<close> is modelled by a backtracking matcher with
  Python's priorities: leftmost start, first alternative, longest repetition first.
\<close>

datatype cls = Lit char | Space | Digit | UpperAZ | Dot | OneOf "cls list"

fun cls_match :: "bool \<Rightarrow> cls \<Rightarrow> char \<Rightarrow> bool" where
  \<comment> \<open>the flag is \<open>re.IGNORECASE\<close>\<close>
  "cls_match ic (Lit c) x = (if ic then lower_ascii x = lower_ascii c else x = c)"
| "cls_match ic Space x = is_space x"
| "cls_match ic Digit x = is_digit x"
| "cls_match ic UpperAZ x = is_upper_AZ x"
| "cls_match ic Dot x = True"
| "cls_match ic (OneOf cs) x = (\<exists>c \<in> set cs. cls_match ic c x)"

datatype item = One cls | Star cls | Plus cls | GroupPlus cls

type_synonym regex = "item list list"

definition lit :: "string \<Rightarrow> item list" where
  "lit s = map (\<lambda>c. One (Lit c)) s"

record rmatch =
  group0 :: string
  group1 :: "string option"

primrec greedy :: "(nat \<Rightarrow> 'a option) \<Rightarrow> nat \<Rightarrow> nat \<Rightarrow> 'a option" where
  \<comment> \<open>try the counts \<open>lo + n\<close>, \<open>lo + n - 1\<close>, ..., \<open>lo\<close> in this order\<close>
  "greedy f lo 0 = f lo"
| "greedy f lo (Suc n) = (case f (lo + Suc n) of Some r \<Rightarrow> Some r | None \<Rightarrow> greedy f lo n)"

definition repeat :: "(char \<Rightarrow> bool) \<Rightarrow> nat \<Rightarrow> string \<Rightarrow> (nat \<Rightarrow> 'a option) \<Rightarrow> 'a option" where
  "repeat p lo s f =
     (let m = length (takeWhile p s) in if m < lo then None else greedy f lo (m - lo))"

primrec match_here :: "bool \<Rightarrow> item list \<Rightarrow> string \<Rightarrow> string option \<Rightarrow> (string option \<times> string) option" where
  \<comment> \<open>the result is the capture and the unconsumed rest\<close>
  "match_here ic [] s g = Some (g, s)"
| "match_here ic (it # r) s g =
     (case it of
        One c \<Rightarrow> (case s of [] \<Rightarrow> None
                   | x # xs \<Rightarrow> if cls_match ic c x then match_here ic r xs g else None)
      | Star c \<Rightarrow> repeat (cls_match ic c) 0 s (\<lambda>k. match_here ic r (drop k s) g)
      | Plus c \<Rightarrow> repeat (cls_match ic c) 1 s (\<lambda>k. match_here ic r (drop k s) g)
      | GroupPlus c \<Rightarrow> repeat (cls_match ic c) 1 s (\<lambda>k. match_here ic r (drop k s) (Some (take k s))))"

fun match_alts :: "bool \<Rightarrow> regex \<Rightarrow> string \<Rightarrow> rmatch option" where
  "match_alts ic [] s = None"
| "match_alts ic (r # rs) s =
     (case match_here ic r s None of
        Some (g, rest) \<Rightarrow> Some \<lparr>group0 = take (length s - length rest) s, group1 = g\<rparr>
      | None \<Rightarrow> match_alts ic rs s)"

fun re_search :: "bool \<Rightarrow> regex \<Rightarrow> string \<Rightarrow> rmatch option" where
  \<comment> \<open>\<open>re.search(pattern, s, flags)\<close>\<close>
  "re_search ic re [] = match_alts ic re []"
| "re_search ic re (c # cs) =
     (case match_alts ic re (c # cs) of Some m \<Rightarrow> Some m | None \<Rightarrow> re_search ic re cs)"


section \<open>HR-Resume-Screener: score and recommendation\<close>

definition match_score_re :: regex where
  \<comment> \<open>\<open>MATCH SCORE:\s*(\d+)\<close>\<close>
  "match_score_re = [lit ''MATCH SCORE:'' @ [Star Space, GroupPlus Digit]]"

definition score_patterns :: "regex list" where
  \<comment> \<open>\<open>score[:\s]+(\d+)\<close>, \<open>(\d+)/10\<close>, \<open>(\d+)\s*out\s*of\s*10\<close>\<close>
  "score_patterns =
     [[lit ''score'' @ [Plus (OneOf [Lit (CHR '':''), Space]), GroupPlus Digit]],
      [[GroupPlus Digit] @ lit ''/10''],
      [[GroupPlus Digit, Star Space] @ lit ''out'' @ [Star Space] @ lit ''of''
         @ [Star Space] @ lit ''10'']]"

definition group1_int :: "rmatch \<Rightarrow> int option" where
  \<comment> \<open>\<open>int(match.group(1))\<close>\<close>
  "group1_int m = (case group1 m of None \<Rightarrow> None | Some ds \<Rightarrow> py_int ds)"

fun first_pattern :: "regex list \<Rightarrow> string \<Rightarrow> rmatch option" where
  \<comment> \<open>the loop over \<open>score_patterns\<close>: the first pattern that matches\<close>
  "first_pattern [] s = None"
| "first_pattern (p # ps) s =
     (case re_search True p s of Some m \<Rightarrow> Some m | None \<Rightarrow> first_pattern ps s)"

definition parse_score_from_analysis :: "string \<Rightarrow> int" where
  \<comment> \<open>an exception inside the \<open>try\<close> (here: \<open>int\<close> refusing the digits) gives 5\<close>
  "parse_score_from_analysis analysis =
     (case re_search False match_score_re analysis of
        Some m \<Rightarrow> (case group1_int m of Some n \<Rightarrow> n | None \<Rightarrow> 5)
      | None \<Rightarrow>
          (case first_pattern score_patterns analysis of
             Some m \<Rightarrow> (case group1_int m of Some n \<Rightarrow> n | None \<Rightarrow> 5)
           | None \<Rightarrow> 5))"

definition recommendation_re :: regex where
  \<comment> \<open>\<open>RECOMMENDATION:\s*([A-Z]+)\<close>\<close>
  "recommendation_re = [lit ''RECOMMENDATION:'' @ [Star Space, GroupPlus UpperAZ]]"

definition parse_recommendation_from_analysis :: "string \<Rightarrow> string" where
  "parse_recommendation_from_analysis analysis =
     (case re_search False recommendation_re analysis of
        Some m \<Rightarrow> (case group1 m of Some g \<Rightarrow> g | None \<Rightarrow> ''REVIEW'')
      | None \<Rightarrow>
          if re_search True [lit ''hire'', lit ''recommend''] analysis \<noteq> None then ''HIRE''
          else if re_search True [lit ''interview''] analysis \<noteq> None then ''INTERVIEW''
          else if re_search True [lit ''reject''] analysis \<noteq> None then ''REJECT''
          else ''REVIEW'')"


section \<open>Exceptions and Python values\<close>

text \<open>
  An exception is a value. The text of an exception raised by a library is not modelled:
  \<open>Exception p (Some e)\<close> stands for \<open>Exception(f"p{str(e)}")\<close>, and \<open>PStrOf e\<close> for the
  string \<open>str(e)\<close>. \<open>LibError\<close> is an exception of the PDF reader or of the model service.

  The texts the programs read are strings of 8-bit characters. A string inside a decoded
  JSON value is a list of code points, since an escape \<open>\uXXXX\<close> can name any of them;
  \<open>codes\<close> turns a string of the program into such a list.
\<close>

datatype exn =
    JSONDecodeError
  | ValueError
  | TypeError
  | LibError string
  | Exception string "exn option"

type_synonym ustr = "nat list"

definition codes :: "string \<Rightarrow> ustr" where
  "codes s = map of_char s"

datatype pyval =
    PNone
  | PBool bool
  | PInt int
  | PFloat string
  | PStr ustr
  | PList "pyval list"
  | PDict "(ustr \<times> pyval) list"
  | PStrOf exn

fun dict_set :: "(ustr \<times> pyval) list \<Rightarrow> ustr \<Rightarrow> pyval \<Rightarrow> (ustr \<times> pyval) list" where
  \<comment> \<open>\<open>d[k] = v\<close>: a present key keeps its position, a new key goes last\<close>
  "dict_set [] k v = [(k, v)]"
| "dict_set ((k', v') # d) k v = (if k' = k then (k, v) # d else (k', v') # dict_set d k v)"

definition dict_get :: "(ustr \<times> pyval) list \<Rightarrow> ustr \<Rightarrow> pyval \<Rightarrow> pyval" where
  \<comment> \<open>\<open>d.get(k, default)\<close>\<close>
  "dict_get d k dflt = (case map_of d k of Some v \<Rightarrow> v | None \<Rightarrow> dflt)"

definition dict_keys :: "(ustr \<times> pyval) list \<Rightarrow> ustr set" where
  "dict_keys d = fst ` set d"

definition set_item :: "pyval \<Rightarrow> ustr \<Rightarrow> pyval \<Rightarrow> exn + pyval" where
  \<comment> \<open>\<open>data[k] = v\<close>: only a dict takes a string key\<close>
  "set_item data k v = (case data of PDict d \<Rightarrow> Inr (PDict (dict_set d k v)) | _ \<Rightarrow> Inl TypeError)"


section \<open>The JSON decoder of the standard library\<close>

text \<open>
  \<open>json.loads\<close> is library code; the sources only call it. It is modelled after the
  decoder's grammar so that the parsers can be run on concrete responses: objects,
  arrays, strings with their escapes (an escaped surrogate pair is one code point),
  numbers, and the constants. A float keeps its literal text. The decoder raises
  \<open>JSONDecodeError\<close>, or \<open>ValueError\<close> when \<open>int\<close> refuses an integer for its length.

  The recursion of the decoder is bounded by fuel. \<open>json_loads\<close> gives twice the length
  of the text and one more, which is enough for every text (\<open>json_loads_fuel\<close> below);
  the interpreter's own depth limit is not modelled.
\<close>

datatype 'a scan = NoFuel | Raised exn | Parsed 'a string

definition json_ws :: "char \<Rightarrow> bool" where
  "json_ws c = (c \<in> set [CHR 0x20, CHR 0x09, CHR 0x0A, CHR 0x0D])"

definition skip_ws :: "string \<Rightarrow> string" where
  "skip_ws s = dropWhile json_ws s"

definition hex_val :: "char \<Rightarrow> nat option" where
  "hex_val c = map_of (zip ''0123456789abcdefABCDEF''
     [0, 1, 2, 3, 4, 5, 6, 7, 8, 9, 10, 11, 12, 13, 14, 15, 10, 11, 12, 13, 14, 15]) c"

definition hex4 :: "string \<Rightarrow> nat option" where
  \<comment> \<open>the value of exactly four hexadecimal digits\<close>
  "hex4 hs =
     (case map hex_val hs of
        [Some x, Some y, Some z, Some w] \<Rightarrow> Some (((x * 16 + y) * 16 + z) * 16 + w)
      | _ \<Rightarrow> None)"

definition u_escape :: "string \<Rightarrow> (nat \<times> nat) option" where
  \<comment> \<open>the text after \<open>\u\<close>: the code point, and how many characters it took. A high
      surrogate followed by an escaped low surrogate is joined with it.\<close>
  "u_escape s =
     (case hex4 (take 4 s) of
        None \<Rightarrow> None
      | Some uni \<Rightarrow>
          if 0xD800 \<le> uni \<and> uni \<le> 0xDBFF \<and> startswith (drop 4 s) [CHR 0x5C, CHR ''u''] then
            (case hex4 (take 4 (drop 6 s)) of
               None \<Rightarrow> None
             | Some uni2 \<Rightarrow>
                 if 0xDC00 \<le> uni2 \<and> uni2 \<le> 0xDFFF
                 then Some (0x10000 + (uni - 0xD800) * 0x400 + (uni2 - 0xDC00), 10)
                 else Some (uni, 4))
          else Some (uni, 4))"

definition simple_escape :: "char \<Rightarrow> char option" where
  "simple_escape e = map_of
     [(CHR 0x22, CHR 0x22), (CHR 0x5C, CHR 0x5C), (CHR ''/'', CHR ''/''),
      (CHR ''b'', CHR 0x08), (CHR ''f'', CHR 0x0C), (CHR ''n'', CHR 0x0A),
      (CHR ''r'', CHR 0x0D), (CHR ''t'', CHR 0x09)] e"

fun scan_string :: "ustr \<Rightarrow> string \<Rightarrow> exn + (ustr \<times> string)" where
  \<comment> \<open>after the opening quote; the first argument collects the code points, reversed\<close>
  "scan_string acc [] = Inl JSONDecodeError"
| "scan_string acc [c] = (if c = CHR 0x22 then Inr (rev acc, []) else Inl JSONDecodeError)"
| "scan_string acc (c # e # es) =
     (if c = CHR 0x22 then Inr (rev acc, e # es)
      else if c = CHR 0x5C then
        (if e = CHR ''u'' then
           (case u_escape es of
              None \<Rightarrow> Inl JSONDecodeError
            | Some (uni, k) \<Rightarrow> scan_string (uni # acc) (drop k es))
         else (case simple_escape e of
                 Some x \<Rightarrow> scan_string (of_char x # acc) es
               | None \<Rightarrow> Inl JSONDecodeError))
      else if (of_char c :: nat) < 32 then Inl JSONDecodeError
      else scan_string (of_char c # acc) (e # es))"

definition scan_digits :: "string \<Rightarrow> string \<times> string" where
  "scan_digits s = (takeWhile is_digit s, dropWhile is_digit s)"

definition scan_frac :: "string \<Rightarrow> string \<times> string" where
  \<comment> \<open>\<open>(\.[0-9]+)?\<close>\<close>
  "scan_frac s =
     (case s of
        [] \<Rightarrow> ([], s)
      | d # r \<Rightarrow> if d = CHR ''.'' \<and> fst (scan_digits r) \<noteq> []
                 then (d # fst (scan_digits r), snd (scan_digits r)) else ([], s))"

definition scan_exp :: "string \<Rightarrow> string \<times> string" where
  \<comment> \<open>\<open>([eE][-+]?[0-9]+)?\<close>\<close>
  "scan_exp s =
     (case s of
        [] \<Rightarrow> ([], s)
      | e # r \<Rightarrow>
          if e \<in> set ''eE'' then
            (let (sg, r') = (case r of
                               [] \<Rightarrow> ([], r)
                             | x # xs \<Rightarrow> if x \<in> set ''-+'' then ([x], xs) else ([], r))
             in if fst (scan_digits r') \<noteq> []
                then (e # sg @ fst (scan_digits r'), snd (scan_digits r')) else ([], s))
          else ([], s))"

definition scan_int_part :: "string \<Rightarrow> (string \<times> string) option" where
  \<comment> \<open>\<open>(?:0|[1-9][0-9]*)\<close>\<close>
  "scan_int_part s =
     (case s of
        [] \<Rightarrow> None
      | c # r \<Rightarrow>
          if c = CHR ''0'' then Some ([c], r)
          else if c \<in> set ''123456789'' then Some (c # fst (scan_digits r), snd (scan_digits r))
          else None)"

definition scan_number :: "string \<Rightarrow> pyval scan option" where
  \<comment> \<open>\<open>None\<close>: the number pattern does not match here\<close>
  "scan_number s =
     (let (neg, s1) = (case s of
                         [] \<Rightarrow> (False, s)
                       | c # r \<Rightarrow> if c = CHR ''-'' then (True, r) else (False, s))
      in case scan_int_part s1 of
           None \<Rightarrow> None
         | Some (ip, s2) \<Rightarrow>
             (let (fr, s3) = scan_frac s2; (ex, s4) = scan_exp s3
              in if fr = [] \<and> ex = [] then
                   (case py_int ip of
                      None \<Rightarrow> Some (Raised ValueError)
                    | Some n \<Rightarrow> Some (Parsed (PInt (if neg then - n else n)) s4))
                 else Some (Parsed (PFloat ((if neg then ''-'' else []) @ ip @ fr @ ex)) s4)))"

definition parse_constant :: "string \<Rightarrow> pyval scan" where
  \<comment> \<open>the branches of the scanner after the string, the object and the array\<close>
  "parse_constant s =
     (if startswith s ''null'' then Parsed PNone (drop 4 s)
      else if startswith s ''true'' then Parsed (PBool True) (drop 4 s)
      else if startswith s ''false'' then Parsed (PBool False) (drop 5 s)
      else (case scan_number s of
              Some res \<Rightarrow> res
            | None \<Rightarrow>
                if startswith s ''NaN'' then Parsed (PFloat ''NaN'') (drop 3 s)
                else if startswith s ''Infinity'' then Parsed (PFloat ''Infinity'') (drop 8 s)
                else if startswith s ''-Infinity'' then Parsed (PFloat ''-Infinity'') (drop 9 s)
                else Raised JSONDecodeError))"

fun parse_value :: "nat \<Rightarrow> string \<Rightarrow> pyval scan"
  and parse_members :: "nat \<Rightarrow> (ustr \<times> pyval) list \<Rightarrow> string \<Rightarrow> pyval scan"
  and parse_elements :: "nat \<Rightarrow> pyval list \<Rightarrow> string \<Rightarrow> pyval scan" where
  "parse_value 0 s = NoFuel"
| "parse_value (Suc n) s =
     (case s of
        [] \<Rightarrow> Raised JSONDecodeError
      | c # cs \<Rightarrow>
          if c = CHR 0x22 then
            (case scan_string [] cs of Inl e \<Rightarrow> Raised e | Inr (t, r) \<Rightarrow> Parsed (PStr t) r)
          else if c = CHR ''{'' then
            (case skip_ws cs of
               [] \<Rightarrow> Raised JSONDecodeError
             | d # ds \<Rightarrow> if d = CHR ''}'' then Parsed (PDict []) ds else parse_members n [] (d # ds))
          else if c = CHR ''['' then
            (case skip_ws cs of
               [] \<Rightarrow> Raised JSONDecodeError
             | d # ds \<Rightarrow> if d = CHR '']'' then Parsed (PList []) ds else parse_elements n [] (d # ds))
          else parse_constant s)"
| "parse_members 0 acc s = NoFuel"
| "parse_members (Suc n) acc s =
     (case s of
        [] \<Rightarrow> Raised JSONDecodeError
      | c # cs \<Rightarrow>
          if c \<noteq> CHR 0x22 then Raised JSONDecodeError
          else
            (case scan_string [] cs of
               Inl e \<Rightarrow> Raised e
             | Inr (k, r1) \<Rightarrow>
                 (case skip_ws r1 of
                    [] \<Rightarrow> Raised JSONDecodeError
                  | c2 # r2 \<Rightarrow>
                      if c2 \<noteq> CHR '':'' then Raised JSONDecodeError
                      else
                        (case parse_value n (skip_ws r2) of
                           NoFuel \<Rightarrow> NoFuel
                         | Raised e \<Rightarrow> Raised e
                         | Parsed v r3 \<Rightarrow>
                             (case skip_ws r3 of
                                [] \<Rightarrow> Raised JSONDecodeError
                              | c4 # r4 \<Rightarrow>
                                  if c4 = CHR ''}'' then Parsed (PDict (dict_set acc k v)) r4
                                  else if c4 = CHR '','' then
                                    parse_members n (dict_set acc k v) (skip_ws r4)
                                  else Raised JSONDecodeError)))))"
| "parse_elements 0 acc s = NoFuel"
| "parse_elements (Suc n) acc s =
     (case parse_value n s of
        NoFuel \<Rightarrow> NoFuel
      | Raised e \<Rightarrow> Raised e
      | Parsed v r1 \<Rightarrow>
          (case skip_ws r1 of
             [] \<Rightarrow> Raised JSONDecodeError
           | c # r2 \<Rightarrow>
               if c = CHR '']'' then Parsed (PList (acc @ [v])) r2
               else if c = CHR '','' then parse_elements n (acc @ [v]) (skip_ws r2)
               else Raised JSONDecodeError))"

definition json_loads :: "string \<Rightarrow> exn + pyval" where
  \<comment> \<open>\<open>json.loads(s)\<close>: one value between optional whitespace, and nothing after it.
      The fuel never runs out, so the first case does not occur.\<close>
  "json_loads s =
     (case parse_value (Suc (2 * length s)) (skip_ws s) of
        NoFuel \<Rightarrow> Inl JSONDecodeError
      | Raised e \<Rightarrow> Inl e
      | Parsed v rest \<Rightarrow> if skip_ws rest = [] then Inr v else Inl JSONDecodeError)"


section \<open>Invoice\_Extractor: the response parser and the batch run\<close>

definition required_fields :: "string list" where
  \<comment> \<open>the fields the prompt template asks for\<close>
  "required_fields =
     [''invoice_number'', ''invoice_date'', ''company_name'', ''company_address'',
      ''customer_name'', ''customer_address'', ''items'', ''subtotal'', ''tax_amount'',
      ''total_amount'', ''phone'', ''email'']"

definition json_object_re :: regex where
  \<comment> \<open>\<open>\{.*\}\<close> under \<open>re.DOTALL\<close>\<close>
  "json_object_re = [[One (Lit (CHR ''{'')), Star Dot, One (Lit (CHR ''}''))]]"

definition clean_response :: "string \<Rightarrow> string" where
  \<comment> \<open>the strip and the two fence branches before the first \<open>json.loads\<close>\<close>
  "clean_response response0 =
     (let response = py_strip response0
      in if startswith response (''```'' @ [CHR 0x0A]) then py_slice response 7 3
         else if startswith response ''```'' then py_slice response 3 3
         else response)"

definition recover_json :: "string \<Rightarrow> exn + pyval" where
  \<comment> \<open>the handler of \<open>json.JSONDecodeError\<close>\<close>
  "recover_json response =
     (case re_search False json_object_re response of
        Some json_match \<Rightarrow> json_loads (group0 json_match)
      | None \<Rightarrow> Inl (Exception ''Unable to parse JSON from model response'' None))"

definition parse_invoice_response :: "string \<Rightarrow> exn + pyval" where
  \<comment> \<open>the inner \<open>try\<close> of \<open>extract_invoice_data\<close>\<close>
  "parse_invoice_response response0 =
     (let response = clean_response response0
      in case json_loads response of
           Inr extracted_data \<Rightarrow> Inr extracted_data
         | Inl e \<Rightarrow> if e = JSONDecodeError then recover_json response else Inl e)"

record pdf_file =
  name :: string
  pages :: "exn + string list"

definition extract_text_from_pdf :: "pdf_file \<Rightarrow> exn + string" where
  \<comment> \<open>\<open>pages\<close> is what the PDF reader yields: the text of each page, or its exception\<close>
  "extract_text_from_pdf f =
     (case pages f of
        Inl e \<Rightarrow> Inl (Exception ''Error extracting text from PDF: '' (Some e))
      | Inr ps \<Rightarrow> Inr (py_strip (concat (map (\<lambda>p. p @ [CHR 0x0A]) ps))))"

definition extract_invoice_data :: "(string \<Rightarrow> exn + string) \<Rightarrow> pdf_file \<Rightarrow> exn + pyval" where
  \<comment> \<open>the first argument is \<open>self.chain.run\<close>: the model's response, or its exception\<close>
  "extract_invoice_data chain_run f =
     (case (case extract_text_from_pdf f of
              Inl e \<Rightarrow> Inl e
            | Inr invoice_text \<Rightarrow>
                if invoice_text = [] then Inl (Exception ''No text found in the PDF file'' None)
                else (case chain_run invoice_text of
                        Inl e \<Rightarrow> Inl e
                      | Inr response \<Rightarrow> parse_invoice_response response)) of
        Inl e \<Rightarrow> Inl (Exception ''Error processing invoice: '' (Some e))
      | Inr data \<Rightarrow> Inr data)"

definition error_record :: "pdf_file \<Rightarrow> exn \<Rightarrow> pyval" where
  "error_record f e =
     PDict [(codes ''filename'', PStr (codes (name f))), (codes ''error'', PStrOf e)]"

definition process_file :: "(string \<Rightarrow> exn + string) \<Rightarrow> pdf_file \<Rightarrow> pyval" where
  \<comment> \<open>the body of the loop of \<open>process_multiple_files\<close>: the record appended for one file\<close>
  "process_file chain_run f =
     (case extract_invoice_data chain_run f of
        Inl e \<Rightarrow> error_record f e
      | Inr data \<Rightarrow>
          (case set_item data (codes ''filename'') (PStr (codes (name f))) of
             Inl e \<Rightarrow> error_record f e
           | Inr data' \<Rightarrow> data'))"

definition process_multiple_files :: "(string \<Rightarrow> exn + string) \<Rightarrow> pdf_file list \<Rightarrow> pyval list" where
  "process_multiple_files chain_run pdf_files =
     foldl (\<lambda>results f. results @ [process_file chain_run f]) [] pdf_files"

definition is_error_record :: "pyval \<Rightarrow> bool" where
  \<comment> \<open>\<open>'error' in r\<close>, the test of the result display\<close>
  "is_error_record r = (case r of PDict d \<Rightarrow> codes ''error'' \<in> dict_keys d | _ \<Rightarrow> False)"


section \<open>MCQ-Maker: the response parser\<close>

record mcq_state =
  questions :: "pyval list"
  current_question :: "string option"
  current_options :: "string list"

definition option_markers :: "string list" where
  "option_markers = [''A)'', ''B)'', ''C)'', ''D)'']"

definition mcq_item :: "string \<Rightarrow> string list \<Rightarrow> pyval" where
  "mcq_item q opts =
     PDict [(codes ''question'', PStr (codes q)),
            (codes ''options'', PList (map (\<lambda>opt. PStr (codes opt)) opts)),
            (codes ''correct_answer'', PStr (codes ''A'')),
            (codes ''explanation'', PStr (codes ''Please verify the correct answer.''))]"

definition flush :: "mcq_state \<Rightarrow> pyval list" where
  \<comment> \<open>\<open>if current_question and current_options: questions.append({...})\<close>\<close>
  "flush st =
     (case current_question st of
        None \<Rightarrow> questions st
      | Some q \<Rightarrow>
          if q \<noteq> [] \<and> current_options st \<noteq> []
          then questions st @ [mcq_item q (current_options st)]
          else questions st)"

definition mcq_step :: "mcq_state \<Rightarrow> string \<Rightarrow> mcq_state" where
  \<comment> \<open>the body of the loop over the lines\<close>
  "mcq_step st line0 =
     (let line = py_strip line0
      in if line = [] then st
         else if CHR ''?'' \<in> set line \<and> \<not> startswith_any line option_markers then
           st\<lparr>questions := flush st, current_question := Some line, current_options := []\<rparr>
         else if startswith_any line option_markers then
           st\<lparr>current_options := current_options st @ [line]\<rparr>
         else st)"

definition parse_text_questions :: "string \<Rightarrow> pyval list" where
  \<comment> \<open>the list \<open>questions\<close> at the \<open>return\<close> of \<open>parse_text_response\<close>\<close>
  "parse_text_questions response =
     flush (foldl mcq_step
              \<lparr>questions = [], current_question = None, current_options = []\<rparr>
              (split_nl response))"

definition parse_text_response :: "string \<Rightarrow> pyval" where
  "parse_text_response response = PDict [(codes ''questions'', PList (parse_text_questions response))]"

definition parse_mcq_response :: "string \<Rightarrow> exn + pyval" where
  "parse_mcq_response response =
     (case re_search False json_object_re response of
        Some json_match \<Rightarrow>
          (case json_loads (group0 json_match) of
             Inr mcq_data \<Rightarrow> Inr mcq_data
           | Inl e \<Rightarrow> if e = JSONDecodeError then Inr (parse_text_response response) else Inl e)
      | None \<Rightarrow> Inr (parse_text_response response))"


section \<open>Ticketing-Sys: the category of a ticket\<close>

definition CATEGORIES :: "string list" where
  "CATEGORIES =
     [''PRODUCT_BUG'', ''ACCOUNT_ACCESS'', ''BILLING'', ''FEATURE_REQUEST'',
      ''USAGE_QUESTION'', ''OTHER'']"

definition find_label_token :: "string \<Rightarrow> string" where
  \<comment> \<open>the fallback of the \<open>except\<close> branch: the first category that occurs in the content\<close>
  "find_label_token content =
     (case List.find (\<lambda>cat. contains content cat) CATEGORIES of
        Some cat \<Rightarrow> cat
      | None \<Rightarrow> ''OTHER'')"

definition classify_content :: "string \<Rightarrow> string" where
  \<comment> \<open>\<open>classify_text\<close> from the \<open>try\<close> on. \<open>.get\<close> on a value that is no dict raises and
      is caught like a decoding error. A category is returned when it is in
      \<open>CATEGORIES\<close>, which only a string can be.\<close>
  "classify_content content =
     (case json_loads (py_strip content) of
        Inr (PDict d) \<Rightarrow>
          (case dict_get d (codes ''category'') (PStr (codes ''OTHER'')) of
             PStr category \<Rightarrow>
               (case List.find (\<lambda>cat. codes cat = category) CATEGORIES of
                  None \<Rightarrow> ''OTHER''
                | Some cat \<Rightarrow> cat)
           | _ \<Rightarrow> ''OTHER'')
      | _ \<Rightarrow> find_label_token content)"

definition classify_text :: "(string \<Rightarrow> exn + string) \<Rightarrow> string \<Rightarrow> exn + string" where
  \<comment> \<open>the first argument is the chat call, from the user message to the reply's content\<close>
  "classify_text chat text =
     (case chat (''Ticket:'' @ [CHR 0x0A] @ text @ [CHR 0x0A, CHR 0x0A] @ ''Return JSON only.'') of
        Inl e \<Rightarrow> Inl e
      | Inr content \<Rightarrow> Inr (classify_content content))"

definition RECOMMENDATIONS :: "string list" where
  \<comment> \<open>the labels of the resume screener: those of its prompt, and its default\<close>
  "RECOMMENDATIONS = [''HIRE'', ''INTERVIEW'', ''REJECT'', ''REVIEW'']"


section \<open>HR-Resume-Screener: the batch run and the ranking\<close>

record resume_file =
  rname :: string
  rpages :: "string list option"

definition resume_extract_text_from_pdf :: "resume_file \<Rightarrow> string" where
  \<comment> \<open>\<open>ResumeParser.extract_text_from_pdf\<close>; \<open>rpages\<close> is what the loader yields, \<open>None\<close>
      when it raises\<close>
  "resume_extract_text_from_pdf f = (case rpages f of None \<Rightarrow> [] | Some ps \<Rightarrow> join_nl ps)"

record analyzer =
  chain :: "string \<Rightarrow> string \<Rightarrow> string + string"
  extraction_chain :: "string \<Rightarrow> string + string"

text \<open>
  The two chains answer \<open>Inr\<close> the model's response or \<open>Inl\<close> the text \<open>str(e)\<close> of the
  exception they raise.
\<close>

definition analyze_resume :: "analyzer \<Rightarrow> string \<Rightarrow> string \<Rightarrow> string" where
  "analyze_resume an resume_text job_description =
     (case chain an (take 4000 resume_text) (take 2000 job_description) of
        Inr response \<Rightarrow> response
      | Inl msg \<Rightarrow> ''Analysis error: '' @ msg)"

definition extract_key_info :: "analyzer \<Rightarrow> string \<Rightarrow> string" where
  "extract_key_info an resume_text =
     (case extraction_chain an (take 3000 resume_text) of
        Inr response \<Rightarrow> response
      | Inl msg \<Rightarrow> ''Extraction error: '' @ msg)"

record resume_result =
  filename :: string
  score :: int
  recommendation :: string
  analysis :: string
  key_info :: string
  resume_text :: string

definition resume_step :: "analyzer \<Rightarrow> string \<Rightarrow> resume_result list \<Rightarrow> resume_file \<Rightarrow> resume_result list" where
  \<comment> \<open>the body of the loop of \<open>process_multiple_resumes\<close>\<close>
  "resume_step an job_description results f =
     (let text = resume_extract_text_from_pdf f
      in if text \<noteq> [] then
           (let a = analyze_resume an text job_description;
                k = extract_key_info an text
            in results @
               [\<lparr>filename = rname f, score = parse_score_from_analysis a,
                 recommendation = parse_recommendation_from_analysis a,
                 analysis = a, key_info = k, resume_text = take 500 text @ ''...''\<rparr>])
         else results)"

definition py_sorted_reverse :: "('a \<Rightarrow> int) \<Rightarrow> 'a list \<Rightarrow> 'a list" where
  \<comment> \<open>\<open>sorted(xs, key=key, reverse=True)\<close>: the list is reversed, sorted by a stable
      ascending sort, and reversed again\<close>
  "py_sorted_reverse key xs = rev (sort_key key (rev xs))"

definition process_multiple_resumes :: "analyzer \<Rightarrow> resume_file list \<Rightarrow> string \<Rightarrow> resume_result list" where
  "process_multiple_resumes an resume_files job_description =
     py_sorted_reverse score (foldl (resume_step an job_description) [] resume_files)"


section \<open>Notions used to state the properties\<close>

fun plain :: "item \<Rightarrow> bool" where
  \<comment> \<open>an item that captures nothing\<close>
  "plain (GroupPlus c) = False"
| "plain (One c) = True"
| "plain (Star c) = True"
| "plain (Plus c) = True"

definition run_of :: "(char \<Rightarrow> bool) \<Rightarrow> string option \<Rightarrow> bool" where
  \<comment> \<open>the capture is present and is a non-empty run of characters of one class\<close>
  "run_of p g = (case g of None \<Rightarrow> False | Some d \<Rightarrow> d \<noteq> [] \<and> list_all p d)"

definition first_score_match :: "string \<Rightarrow> rmatch option" where
  \<comment> \<open>the ordered pattern list of the score extractor: the labelled pattern, then the
      three alternative ones; the first that matches\<close>
  "first_score_match s =
     (case re_search False match_score_re s of
        Some m \<Rightarrow> Some m
      | None \<Rightarrow> first_pattern score_patterns s)"

definition is_option_line :: "string \<Rightarrow> bool" where
  \<comment> \<open>a line prefixed with one of the fixed option markers\<close>
  "is_option_line l = (take 2 l = ''A)'' \<or> take 2 l = ''B)'' \<or> take 2 l = ''C)'' \<or> take 2 l = ''D)'')"

definition is_question_line :: "string \<Rightarrow> bool" where
  \<comment> \<open>a line containing a question mark and not prefixed by an option marker\<close>
  "is_question_line l = (CHR ''?'' \<in> set l \<and> \<not> is_option_line l)"

fun group_items :: "string list \<Rightarrow> (string \<times> string list) list" where
  \<comment> \<open>every question line starts an item; its sub-fields are the option lines that
      follow it before the next question line or the end of the input\<close>
  "group_items [] = []"
| "group_items (l # ls) =
     (if is_question_line l
      then (l, filter is_option_line (takeWhile (\<lambda>x. \<not> is_question_line x) ls)) # group_items ls
      else group_items ls)"

definition line_items :: "string list \<Rightarrow> (string \<times> string list) list" where
  \<comment> \<open>the items of a list of lines, without those that collected no sub-field\<close>
  "line_items ls = filter (\<lambda>(q, opts). opts \<noteq> []) (group_items ls)"

definition spec_line_parse :: "string \<Rightarrow> (string \<times> string list) list" where
  \<comment> \<open>the heuristic line parse in the words of the specification: the input is split
      into lines, and the lines are taken as they are\<close>
  "spec_line_parse response = line_items (split_nl response)"

definition flushed :: "string \<Rightarrow> string list \<Rightarrow> pyval list" where
  \<comment> \<open>what flushing the current item appends to the questions\<close>
  "flushed q opts = (if opts \<noteq> [] then [mcq_item q opts] else [])"

definition brace_span :: "string \<Rightarrow> string option" where
  \<comment> \<open>the structured span of a text: from its first opening brace to the last closing
      brace after it, when there is one\<close>
  "brace_span r =
     (let t = dropWhile (\<lambda>c. c \<noteq> CHR ''{'') r
      in if CHR ''}'' \<in> set t then Some (rev (dropWhile (\<lambda>c. c \<noteq> CHR ''}'') (rev t))) else None)"

definition span_of :: "string \<Rightarrow> string \<Rightarrow> string \<Rightarrow> string" where
  \<comment> \<open>a structured span: from an opening brace to a closing brace\<close>
  "span_of pre mid post = pre @ CHR ''{'' # mid @ CHR ''}'' # post"


section \<open>Facts about the decoder\<close>

lemma skip_ws_length: "length (skip_ws s) \<le> length s"
  by (simp add: skip_ws_def length_dropWhile_le)

lemma skip_ws_Cons_length: "skip_ws s = c # r \<Longrightarrow> length r < length s"
  using skip_ws_length[of s] by simp

lemma scan_string_shorter:
  "scan_string acc s = Inr (t, r) \<Longrightarrow> length r < length s"
proof (induction acc s arbitrary: t r rule: scan_string.induct)
  case (1 acc)
  then show ?case by simp
next
  case (2 acc c)
  then show ?case by (simp split: if_splits)
next
  case (3 acc c e es)
  show ?case
  proof (cases "c = CHR 0x22")
    case True
    with 3(4) show ?thesis by simp
  next
    case nq: False
    show ?thesis
    proof (cases "c = CHR 0x5C")
      case bs: True
      show ?thesis
      proof (cases "e = CHR ''u''")
        case u: True
        from 3(4) nq bs u obtain uni k where uk: "u_escape es = Some (uni, k)"
          and rec: "scan_string (uni # acc) (drop k es) = Inr (t, r)"
          by (auto split: option.splits)
        from 3(1)[OF nq bs u uk[THEN sym, THEN sym] refl rec] have "length r < length (drop k es)"
          by simp
        then show ?thesis by simp
      next
        case nu: False
        from 3(4) nq bs nu obtain x where x: "simple_escape e = Some x"
          and rec: "scan_string (of_char x # acc) es = Inr (t, r)"
          by (auto split: option.splits)
        from 3(2)[OF nq bs nu x rec] show ?thesis by simp
      qed
    next
      case nbs: False
      from 3(4) nq nbs have ctl: "\<not> (of_char c :: nat) < 32"
        and rec: "scan_string (of_char c # acc) (e # es) = Inr (t, r)"
        by (auto split: if_splits)
      from 3(3)[OF nq nbs ctl rec] show ?thesis by simp
    qed
  qed
qed



lemma scan_digits_length: "length (snd (scan_digits s)) \<le> length s"
  by (simp add: scan_digits_def length_dropWhile_le)

lemma scan_frac_length: "length (snd (scan_frac s)) \<le> length s"
proof (cases s)
  case Nil
  then show ?thesis by (simp add: scan_frac_def)
next
  case (Cons d r)
  have "length (snd (scan_digits r)) \<le> length r" by (rule scan_digits_length)
  then show ?thesis by (simp add: scan_frac_def Cons)
qed

lemma scan_exp_length: "length (snd (scan_exp s)) \<le> length s"
proof (cases s)
  case Nil
  then show ?thesis by (simp add: scan_exp_def)
next
  case (Cons e r)
  show ?thesis
  proof (cases r)
    case Nil
    then show ?thesis by (simp add: scan_exp_def Cons scan_digits_def)
  next
    case (Cons x xs)
    have a: "length (snd (scan_digits xs)) \<le> length xs" by (rule scan_digits_length)
    have b: "length (snd (scan_digits (x # xs))) \<le> Suc (length xs)"
      using scan_digits_length[of "x # xs"] by simp
    from a b show ?thesis
      by (simp add: scan_exp_def \<open>s = e # r\<close> Cons Let_def)
  qed
qed

lemma scan_int_part_shorter:
  assumes "scan_int_part s = Some (ip, r)"
  shows "length r < length s"
proof (cases s)
  case Nil
  with assms show ?thesis by (simp add: scan_int_part_def)
next
  case (Cons c cs)
  have "length (snd (scan_digits cs)) \<le> length cs" by (rule scan_digits_length)
  with assms Cons show ?thesis
    by (auto simp: scan_int_part_def split: if_splits)
qed

lemma scan_number_shorter:
  assumes "scan_number s = Some (Parsed v r)"
  shows "length r < length s"
proof -
  define s1 where "s1 = (case s of [] \<Rightarrow> s | c # r \<Rightarrow> if c = CHR ''-'' then r else s)"
  have s1: "length s1 \<le> length s" by (simp add: s1_def split: list.splits)
  from assms obtain ip s2 where ip: "scan_int_part s1 = Some (ip, s2)"
    and r: "r = snd (scan_exp (snd (scan_frac s2)))"
    by (auto simp: scan_number_def s1_def Let_def split: list.splits if_splits option.splits prod.splits)
  have "length r \<le> length (snd (scan_frac s2))" unfolding r by (rule scan_exp_length)
  also have "\<dots> \<le> length s2" by (rule scan_frac_length)
  also have "\<dots> < length s1" by (rule scan_int_part_shorter[OF ip])
  finally show ?thesis using s1 by simp
qed


lemma scan_number_fuel: "scan_number s \<noteq> Some NoFuel"
  by (auto simp: scan_number_def Let_def split: list.splits if_splits option.splits prod.splits)

lemma startswith_drop_shorter:
  "startswith s p \<Longrightarrow> p \<noteq> [] \<Longrightarrow> length (drop (length p) s) < length s"
proof -
  assume a: "startswith s p" and b: "p \<noteq> []"
  from a have "length (take (length p) s) = length p" by (simp add: startswith_def)
  then have "length p \<le> length s" by simp
  with b show ?thesis by (cases p) simp_all
qed

lemma parse_constant_shorter:
  assumes "parse_constant s = Parsed v r"
  shows "length r < length s"
proof -
  note d = startswith_drop_shorter
  from assms consider "startswith s ''null''" "r = drop 4 s"
    | "startswith s ''true''" "r = drop 4 s"
    | "startswith s ''false''" "r = drop 5 s"
    | "scan_number s = Some (Parsed v r)"
    | "startswith s ''NaN''" "r = drop 3 s"
    | "startswith s ''Infinity''" "r = drop 8 s"
    | "startswith s ''-Infinity''" "r = drop 9 s"
    by (auto simp: parse_constant_def split: if_splits option.splits)
  then show ?thesis
  proof cases
    case 1 with d[of s "''null''"] show ?thesis by simp
  next
    case 2 with d[of s "''true''"] show ?thesis by simp
  next
    case 3 with d[of s "''false''"] show ?thesis by simp
  next
    case 4 then show ?thesis by (rule scan_number_shorter)
  next
    case 5 with d[of s "''NaN''"] show ?thesis by simp
  next
    case 6 with d[of s "''Infinity''"] show ?thesis by simp
  next
    case 7 with d[of s "''-Infinity''"] show ?thesis by simp
  qed
qed


lemma parse_constant_fuel: "parse_constant s \<noteq> NoFuel"
  using scan_number_fuel[of s]
  by (auto simp: parse_constant_def split: if_splits option.splits)


lemma parse_value_Suc_shorter:
  assumes m: "\<And>acc s v r. parse_members n acc s = Parsed v r \<Longrightarrow> length r < length s"
    and e: "\<And>acc s v r. parse_elements n acc s = Parsed v r \<Longrightarrow> length r < length s"
    and p: "parse_value (Suc n) s = Parsed v r"
  shows "length r < length s"
proof (cases s)
  case Nil
  with p show ?thesis by simp
next
  case (Cons c cs)
  show ?thesis
  proof (cases "c = CHR 0x22")
    case True
    with p Cons obtain t where "scan_string [] cs = Inr (t, r)"
      by (auto split: sum.splits)
    from scan_string_shorter[OF this] Cons show ?thesis by simp
  next
    case nq: False
    show ?thesis
    proof (cases "c = CHR ''{''")
      case True
      with p Cons nq obtain d ds where d: "skip_ws cs = d # ds"
        and r: "(d = CHR ''}'' \<and> r = ds) \<or> parse_members n [] (d # ds) = Parsed v r"
        by (auto split: list.splits if_splits)
      from skip_ws_length[of cs] d have l: "length (d # ds) \<le> length cs" by simp
      from r show ?thesis
      proof
        assume "d = CHR ''}'' \<and> r = ds"
        with l Cons show ?thesis by simp
      next
        assume "parse_members n [] (d # ds) = Parsed v r"
        from m[OF this] l Cons show ?thesis by simp
      qed
    next
      case no: False
      show ?thesis
      proof (cases "c = CHR ''[''")
        case True
        with p Cons nq no obtain d ds where d: "skip_ws cs = d # ds"
          and r: "(d = CHR '']'' \<and> r = ds) \<or> parse_elements n [] (d # ds) = Parsed v r"
          by (auto split: list.splits if_splits)
        from skip_ws_length[of cs] d have l: "length (d # ds) \<le> length cs" by simp
        from r show ?thesis
        proof
          assume "d = CHR '']'' \<and> r = ds"
          with l Cons show ?thesis by simp
        next
          assume "parse_elements n [] (d # ds) = Parsed v r"
          from e[OF this] l Cons show ?thesis by simp
        qed
      next
        case False
        with p Cons nq no have "parse_constant s = Parsed v r" by simp
        then show ?thesis by (rule parse_constant_shorter)
      qed
    qed
  qed
qed

lemma parse_members_Suc_shorter:
  assumes pv: "\<And>s v r. parse_value n s = Parsed v r \<Longrightarrow> length r < length s"
    and m: "\<And>acc s v r. parse_members n acc s = Parsed v r \<Longrightarrow> length r < length s"
    and p: "parse_members (Suc n) acc s = Parsed v r"
  shows "length r < length s"
proof -
  from p obtain cs k r1 r2 v' r3 c4 r4 where s: "s = CHR 0x22 # cs"
    and k: "scan_string [] cs = Inr (k, r1)"
    and c: "skip_ws r1 = CHR '':'' # r2"
    and v: "parse_value n (skip_ws r2) = Parsed v' r3"
    and w: "skip_ws r3 = c4 # r4"
    and r: "(c4 = CHR ''}'' \<and> r = r4) \<or>
            parse_members n (dict_set acc k v') (skip_ws r4) = Parsed v r"
    by (auto split: list.splits if_splits sum.splits scan.splits)
  have 1: "length r1 < length cs" by (rule scan_string_shorter[OF k])
  have 2: "length r2 < length r1" by (rule skip_ws_Cons_length[OF c])
  have 3: "length r3 < length r2" using pv[OF v] skip_ws_length[of r2] by simp
  have 4: "length r4 < length r3" by (rule skip_ws_Cons_length[OF w])
  from r have "length r \<le> length r4"
  proof
    assume "c4 = CHR ''}'' \<and> r = r4"
    then show ?thesis by simp
  next
    assume "parse_members n (dict_set acc k v') (skip_ws r4) = Parsed v r"
    from m[OF this] skip_ws_length[of r4] show ?thesis by simp
  qed
  with 1 2 3 4 s show ?thesis by simp
qed

lemma parse_elements_Suc_shorter:
  assumes pv: "\<And>s v r. parse_value n s = Parsed v r \<Longrightarrow> length r < length s"
    and e: "\<And>acc s v r. parse_elements n acc s = Parsed v r \<Longrightarrow> length r < length s"
    and p: "parse_elements (Suc n) acc s = Parsed v r"
  shows "length r < length s"
proof -
  from p obtain v' r1 c r2 where v: "parse_value n s = Parsed v' r1"
    and w: "skip_ws r1 = c # r2"
    and r: "(c = CHR '']'' \<and> r = r2) \<or>
            parse_elements n (acc @ [v']) (skip_ws r2) = Parsed v r"
    by (auto split: list.splits if_splits scan.splits)
  have 1: "length r1 < length s" by (rule pv[OF v])
  have 2: "length r2 < length r1" by (rule skip_ws_Cons_length[OF w])
  from r have "length r \<le> length r2"
  proof
    assume "c = CHR '']'' \<and> r = r2"
    then show ?thesis by simp
  next
    assume "parse_elements n (acc @ [v']) (skip_ws r2) = Parsed v r"
    from e[OF this] skip_ws_length[of r2] show ?thesis by simp
  qed
  with 1 2 show ?thesis by simp
qed

lemma parse_shorter:
  "(\<forall>s v r. parse_value n s = Parsed v r \<longrightarrow> length r < length s) \<and>
   (\<forall>acc s v r. parse_members n acc s = Parsed v r \<longrightarrow> length r < length s) \<and>
   (\<forall>acc s v r. parse_elements n acc s = Parsed v r \<longrightarrow> length r < length s)"
proof (induction n)
  case 0
  show ?case by simp
next
  case (Suc n)
  then have pv: "\<And>s v r. parse_value n s = Parsed v r \<Longrightarrow> length r < length s"
    and m: "\<And>acc s v r. parse_members n acc s = Parsed v r \<Longrightarrow> length r < length s"
    and e: "\<And>acc s v r. parse_elements n acc s = Parsed v r \<Longrightarrow> length r < length s"
    by blast+
  show ?case
  proof (intro conjI allI impI)
    fix s v r
    assume a: "parse_value (Suc n) s = Parsed v r"
    show "length r < length s"
      by (rule parse_value_Suc_shorter[OF _ _ a]) (erule m, erule e)
  next
    fix acc s v r
    assume a: "parse_members (Suc n) acc s = Parsed v r"
    show "length r < length s"
      by (rule parse_members_Suc_shorter[OF _ _ a]) (erule pv, erule m)
  next
    fix acc s v r
    assume a: "parse_elements (Suc n) acc s = Parsed v r"
    show "length r < length s"
      by (rule parse_elements_Suc_shorter[OF _ _ a]) (erule pv, erule e)
  qed
qed

lemma parse_value_shorter: "parse_value n s = Parsed v r \<Longrightarrow> length r < length s"
  using parse_shorter[of n] by blast


lemma parse_value_Suc_fuel:
  assumes m: "\<And>acc s. 2 * length s < n \<Longrightarrow> parse_members n acc s \<noteq> NoFuel"
    and e: "\<And>acc s. 2 * length s + 1 < n \<Longrightarrow> parse_elements n acc s \<noteq> NoFuel"
    and a: "2 * length s < Suc n"
  shows "parse_value (Suc n) s \<noteq> NoFuel"
proof (cases s)
  case Nil
  then show ?thesis by simp
next
  case (Cons c cs)
  from a Cons have n: "2 * length cs + 1 < n" by simp
  have k: "2 * length (d # ds) + 1 < n" if "skip_ws cs = d # ds" for d ds
    using that skip_ws_length[of cs] n by simp
  have M: "parse_members n [] (d # ds) \<noteq> NoFuel" if "skip_ws cs = d # ds" for d ds
    using k[OF that] by (intro m) simp
  have E: "parse_elements n [] (d # ds) \<noteq> NoFuel" if "skip_ws cs = d # ds" for d ds
    using k[OF that] by (intro e) simp
  show ?thesis
    using M E parse_constant_fuel[of s]
    by (auto simp: Cons split: sum.splits list.splits)
qed

lemma parse_members_Suc_fuel:
  assumes pv: "\<And>s. 2 * length s < n \<Longrightarrow> parse_value n s \<noteq> NoFuel"
    and m: "\<And>acc s. 2 * length s < n \<Longrightarrow> parse_members n acc s \<noteq> NoFuel"
    and a: "2 * length s < Suc n"
  shows "parse_members (Suc n) acc s \<noteq> NoFuel"
proof
  assume p: "parse_members (Suc n) acc s = NoFuel"
  then obtain cs k r1 r2 where s: "s = CHR 0x22 # cs"
    and k: "scan_string [] cs = Inr (k, r1)"
    and c: "skip_ws r1 = CHR '':'' # r2"
    by (auto split: list.splits if_splits sum.splits scan.splits)
  have 1: "length r1 < length cs" by (rule scan_string_shorter[OF k])
  have 2: "length r2 < length r1" by (rule skip_ws_Cons_length[OF c])
  have "2 * length (skip_ws r2) < n"
    using 1 2 s a skip_ws_length[of r2] by simp
  then have nf: "parse_value n (skip_ws r2) \<noteq> NoFuel" by (rule pv)
  with p s k c obtain v' r3 c4 r4 where v: "parse_value n (skip_ws r2) = Parsed v' r3"
    and w: "skip_ws r3 = c4 # r4"
    and r: "parse_members n (dict_set acc k v') (skip_ws r4) = NoFuel"
    by (auto split: list.splits if_splits scan.splits)
  have 3: "length r3 < length r2"
    using parse_value_shorter[OF v] skip_ws_length[of r2] by simp
  have 4: "length r4 < length r3" by (rule skip_ws_Cons_length[OF w])
  have "2 * length (skip_ws r4) < n"
    using 1 2 3 4 s a skip_ws_length[of r4] by simp
  from m[OF this] r show False by simp
qed

lemma parse_elements_Suc_fuel:
  assumes pv: "\<And>s. 2 * length s < n \<Longrightarrow> parse_value n s \<noteq> NoFuel"
    and e: "\<And>acc s. 2 * length s + 1 < n \<Longrightarrow> parse_elements n acc s \<noteq> NoFuel"
    and a: "2 * length s + 1 < Suc n"
  shows "parse_elements (Suc n) acc s \<noteq> NoFuel"
proof
  assume p: "parse_elements (Suc n) acc s = NoFuel"
  from a have "2 * length s < n" by simp
  then have nf: "parse_value n s \<noteq> NoFuel" by (rule pv)
  with p obtain v' r1 c r2 where v: "parse_value n s = Parsed v' r1"
    and w: "skip_ws r1 = c # r2"
    and r: "parse_elements n (acc @ [v']) (skip_ws r2) = NoFuel"
    by (auto split: list.splits if_splits scan.splits)
  have 1: "length r1 < length s" by (rule parse_value_shorter[OF v])
  have 2: "length r2 < length r1" by (rule skip_ws_Cons_length[OF w])
  have "2 * length (skip_ws r2) + 1 < n"
    using 1 2 a skip_ws_length[of r2] by simp
  from e[OF this] r show False by simp
qed

lemma parse_fuel:
  "(\<forall>s. 2 * length s < n \<longrightarrow> parse_value n s \<noteq> NoFuel) \<and>
   (\<forall>acc s. 2 * length s < n \<longrightarrow> parse_members n acc s \<noteq> NoFuel) \<and>
   (\<forall>acc s. 2 * length s + 1 < n \<longrightarrow> parse_elements n acc s \<noteq> NoFuel)"
proof (induction n)
  case 0
  show ?case by simp
next
  case (Suc n)
  then have pv: "\<And>s. 2 * length s < n \<Longrightarrow> parse_value n s \<noteq> NoFuel"
    and m: "\<And>acc s. 2 * length s < n \<Longrightarrow> parse_members n acc s \<noteq> NoFuel"
    and e: "\<And>acc s. 2 * length s + 1 < n \<Longrightarrow> parse_elements n acc s \<noteq> NoFuel"
    by blast+
  show ?case
  proof (intro conjI allI impI)
    fix s :: string
    assume a: "2 * length s < Suc n"
    show "parse_value (Suc n) s \<noteq> NoFuel"
      by (rule parse_value_Suc_fuel[OF _ _ a]) (erule m, erule e)
  next
    fix acc and s :: string
    assume a: "2 * length s < Suc n"
    show "parse_members (Suc n) acc s \<noteq> NoFuel"
      by (rule parse_members_Suc_fuel[OF _ _ a]) (erule pv, erule m)
  next
    fix acc and s :: string
    assume a: "2 * length s + 1 < Suc n"
    show "parse_elements (Suc n) acc s \<noteq> NoFuel"
      by (rule parse_elements_Suc_fuel[OF _ _ a]) (erule pv, erule e)
  qed
qed

lemma json_loads_fuel: "parse_value (Suc (2 * length s)) (skip_ws s) \<noteq> NoFuel"
proof -
  have "2 * length (skip_ws s) < Suc (2 * length s)"
    using skip_ws_length[of s] by simp
  with parse_fuel[of "Suc (2 * length s)"] show ?thesis by blast
qed




section \<open>An integer too long for the decoder\<close>

lemma scan_digits_ones:
  assumes "rest = [] \<or> hd rest = CHR ''}''"
  shows "scan_digits (replicate n (CHR ''1'') @ rest) = (replicate n (CHR ''1''), rest)"
proof -
  have d: "is_digit (CHR ''1'')" by (simp add: is_digit_def)
  have r: "rest = [] \<or> \<not> is_digit (hd rest)"
    using assms by (auto simp: is_digit_def)
  have "takeWhile is_digit rest = []" using r by (simp add: takeWhile_eq_Nil_iff)
  moreover have "dropWhile is_digit rest = rest" using r by (simp add: dropWhile_eq_self_iff)
  moreover have "takeWhile is_digit (replicate n (CHR ''1'') @ rest)
      = replicate n (CHR ''1'') @ takeWhile is_digit rest"
    by (rule takeWhile_append2) (simp add: d)
  moreover have "dropWhile is_digit (replicate n (CHR ''1'') @ rest) = dropWhile is_digit rest"
    by (rule dropWhile_append2) (simp add: d)
  ultimately show ?thesis
    by (simp add: scan_digits_def)
qed

lemma scan_number_long:
  assumes "4300 \<le> n" and "rest = [] \<or> hd rest = CHR ''}''"
  shows "scan_number (CHR ''1'' # replicate n (CHR ''1'') @ rest) = Some (Raised ValueError)"
proof -
  have ip: "scan_int_part (CHR ''1'' # replicate n (CHR ''1'') @ rest)
      = Some (CHR ''1'' # replicate n (CHR ''1''), rest)"
    by (simp add: scan_int_part_def scan_digits_ones[OF assms(2)])
  have fr: "scan_frac rest = ([], rest)"
    using assms(2) by (cases rest) (auto simp: scan_frac_def)
  have ex: "scan_exp rest = ([], rest)"
    using assms(2) by (cases rest) (auto simp: scan_exp_def)
  have pi: "py_int (CHR ''1'' # replicate n (CHR ''1'')) = None"
    using assms(1) by (simp add: py_int_def int_max_str_digits_def)
  show ?thesis by (simp add: scan_number_def ip fr ex pi)
qed

lemma parse_value_long:
  assumes "4300 \<le> n" and "rest = [] \<or> hd rest = CHR ''}''"
  shows "parse_value (Suc k) (CHR ''1'' # replicate n (CHR ''1'') @ rest) = Raised ValueError"
  by (simp add: parse_constant_def startswith_def scan_number_long[OF assms])

lemma json_loads_long_int:
  assumes "4300 < n"
  shows "json_loads (replicate n (CHR ''1'')) = Inl ValueError"
proof -
  from assms obtain m where n: "n = Suc m" and m: "4300 \<le> m" by (cases n) auto
  have w: "skip_ws (replicate n (CHR ''1'')) = replicate n (CHR ''1'')"
    by (simp add: skip_ws_def json_ws_def dropWhile_replicate)
  have "parse_value (Suc (2 * length (replicate n (CHR ''1'')))) (CHR ''1'' # replicate m (CHR ''1'') @ [])
      = Raised ValueError"
    by (rule parse_value_long[OF m]) simp
  then have "parse_value (Suc (2 * length (replicate n (CHR ''1'')))) (replicate n (CHR ''1''))
      = Raised ValueError"
    by (simp only: n replicate.simps append_Nil2)
  then show ?thesis by (simp only: json_loads_def w scan.case)
qed




section \<open>Facts about the matcher\<close>

lemma greedy_SomeD:
  "greedy f lo n = Some r \<Longrightarrow> \<exists>k. lo \<le> k \<and> k \<le> lo + n \<and> f k = Some r"
proof (induction n)
  case 0 then show ?case by auto
next
  case (Suc n)
  show ?case
  proof (cases "f (lo + Suc n)")
    case None
    with Suc obtain k where "lo \<le> k" "k \<le> lo + n" "f k = Some r" by auto
    then show ?thesis by (intro exI[of _ k]) simp
  next
    case (Some a)
    with Suc.prems have "f (lo + Suc n) = Some r" by simp
    then show ?thesis by (intro exI[of _ "lo + Suc n"]) simp
  qed
qed

lemma repeat_SomeD:
  assumes "repeat p lo s f = Some r"
  shows "\<exists>k. lo \<le> k \<and> k \<le> length (takeWhile p s) \<and> f k = Some r"
proof -
  let ?m = "length (takeWhile p s)"
  from assms have le: "lo \<le> ?m" and g: "greedy f lo (?m - lo) = Some r"
    by (auto simp: repeat_def Let_def split: if_splits)
  from greedy_SomeD[OF g] le show ?thesis by auto
qed

lemma take_takeWhile_all:
  assumes "k \<le> length (takeWhile p s)"
  shows "list_all p (take k s)"
proof -
  have "take k (takeWhile p s @ dropWhile p s) = take k (takeWhile p s)"
    using assms by (simp only: take_append) simp
  then have "take k s = take k (takeWhile p s)" by simp
  then have "set (take k s) \<subseteq> set (takeWhile p s)" by (metis set_take_subset)
  then show ?thesis by (auto simp: list_all_iff dest: set_takeWhileD)
qed

lemma match_here_plain:
  "\<forall>i \<in> set r. plain i \<Longrightarrow> match_here ic r s g = Some (g', rest) \<Longrightarrow> g' = g"
proof (induction r arbitrary: s g)
  case Nil then show ?case by simp
next
  case (Cons it r)
  show ?case
  proof (cases it)
    case (One c)
    with Cons show ?thesis by (auto split: list.splits if_splits)
  next
    case (Star c)
    with Cons.prems obtain k where "match_here ic r (drop k s) g = Some (g', rest)"
      by (auto dest!: repeat_SomeD)
    with Cons show ?thesis by auto
  next
    case (Plus c)
    with Cons.prems obtain k where "match_here ic r (drop k s) g = Some (g', rest)"
      by (auto dest!: repeat_SomeD)
    with Cons show ?thesis by auto
  next
    case (GroupPlus c)
    with Cons.prems show ?thesis by simp
  qed
qed

lemma match_here_group:
  assumes "match_here ic (pre @ GroupPlus c # post) s g = Some (g', rest)"
    and "\<forall>i \<in> set pre. plain i" and "\<forall>i \<in> set post. plain i"
  shows "run_of (cls_match ic c) g'"
  using assms
proof (induction pre arbitrary: s)
  case Nil
  then obtain k where k: "1 \<le> k" "k \<le> length (takeWhile (cls_match ic c) s)"
    and m: "match_here ic post (drop k s) (Some (take k s)) = Some (g', rest)"
    by (auto dest!: repeat_SomeD)
  from match_here_plain[OF Nil.prems(3) m] have g': "g' = Some (take k s)" .
  from k have "k \<le> length s" using length_takeWhile_le order_trans by blast
  with k(1) have "take k s \<noteq> []" by auto
  moreover note take_takeWhile_all[OF k(2)]
  ultimately show ?case by (simp add: g' run_of_def)
next
  case (Cons it pre)
  show ?case
  proof (cases it)
    case (One d)
    with Cons show ?thesis by (auto split: list.splits if_splits)
  next
    case (Star d)
    with Cons.prems obtain k where "match_here ic (pre @ GroupPlus c # post) (drop k s) g = Some (g', rest)"
      by (auto dest!: repeat_SomeD)
    with Cons show ?thesis by auto
  next
    case (Plus d)
    with Cons.prems obtain k where "match_here ic (pre @ GroupPlus c # post) (drop k s) g = Some (g', rest)"
      by (auto dest!: repeat_SomeD)
    with Cons show ?thesis by auto
  next
    case (GroupPlus d)
    with Cons.prems show ?thesis by simp
  qed
qed

lemma re_search_single_SomeD:
  "re_search ic [r] s = Some m \<Longrightarrow> \<exists>t rest. match_here ic r t None = Some (group1 m, rest)"
proof (induction s)
  case Nil
  then show ?case by (fastforce split: option.splits)
next
  case (Cons x s)
  then show ?case by (fastforce split: option.splits)
qed

lemma cls_match_Digit: "cls_match ic Digit = is_digit"
  by (rule ext) simp

lemma re_search_group:
  assumes "re_search ic [pre @ GroupPlus c # post] s = Some m"
    and "\<forall>i \<in> set pre. plain i" and "\<forall>i \<in> set post. plain i"
  shows "run_of (cls_match ic c) (group1 m)"
proof -
  from re_search_single_SomeD[OF assms(1)] obtain t rest
    where "match_here ic (pre @ GroupPlus c # post) t None = Some (group1 m, rest)" by blast
  from match_here_group[OF this assms(2,3)] show ?thesis .
qed

lemma plain_lit: "\<forall>i \<in> set (lit s). plain i"
  by (simp add: lit_def)

lemma match_score_re_group:
  "re_search False match_score_re s = Some m \<Longrightarrow> run_of is_digit (group1 m)"
proof -
  assume a: "re_search False match_score_re s = Some m"
  have "run_of (cls_match False Digit) (group1 m)"
    by (rule re_search_group[where pre = "lit ''MATCH SCORE:'' @ [Star Space]" and post = "[]"])
       (use a in \<open>simp_all add: match_score_re_def plain_lit\<close>)
  then show ?thesis by (simp add: cls_match_Digit)
qed

lemma score_patterns_group:
  assumes "first_pattern score_patterns s = Some m"
  shows "run_of is_digit (group1 m)"
proof -
  let ?p1 = "[lit ''score'' @ [Plus (OneOf [Lit (CHR '':''), Space]), GroupPlus Digit]]"
  let ?p2 = "[[GroupPlus Digit] @ lit ''/10'']"
  let ?p3 = "[[GroupPlus Digit, Star Space] @ lit ''out'' @ [Star Space] @ lit ''of''
         @ [Star Space] @ lit ''10'']"
  from assms consider "re_search True ?p1 s = Some m" | "re_search True ?p2 s = Some m"
    | "re_search True ?p3 s = Some m"
    by (auto simp: score_patterns_def split: option.splits)
  then have "run_of (cls_match True Digit) (group1 m)"
  proof cases
    case 1
    show ?thesis
      by (rule re_search_group[where pre = "lit ''score'' @ [Plus (OneOf [Lit (CHR '':''), Space])]" and post = "[]"])
         (use 1 in \<open>simp_all add: plain_lit\<close>)
  next
    case 2
    show ?thesis
      by (rule re_search_group[where pre = "[]" and post = "lit ''/10''"])
         (use 2 in \<open>simp_all add: plain_lit\<close>)
  next
    case 3
    show ?thesis
      by (rule re_search_group[where pre = "[]" and post = "[Star Space] @ lit ''out'' @ [Star Space] @ lit ''of''
         @ [Star Space] @ lit ''10''"])
         (use 3 in \<open>auto simp: lit_def\<close>)
  qed
  then show ?thesis by (simp add: cls_match_Digit)
qed

lemma digit_val_nonneg: "is_digit c \<Longrightarrow> 0 \<le> digit_val c"
  by (auto simp: is_digit_def digit_val_def)

lemma foldl_dec_nonneg:
  "list_all is_digit ds \<Longrightarrow> 0 \<le> n \<Longrightarrow> 0 \<le> foldl (\<lambda>n c. 10 * n + digit_val c) n ds"
proof (induction ds arbitrary: n)
  case Nil then show ?case by simp
next
  case (Cons d ds)
  from Cons.prems have "0 \<le> 10 * n + digit_val d" using digit_val_nonneg[of d] by simp
  with Cons show ?case by simp
qed

lemma dec_val_nonneg: "list_all is_digit ds \<Longrightarrow> 0 \<le> dec_val ds"
  unfolding dec_val_def by (rule foldl_dec_nonneg) simp_all

lemma first_score_match_group:
  "first_score_match s = Some m \<Longrightarrow> run_of is_digit (group1 m)"
  by (auto simp: first_score_match_def split: option.splits
      dest: match_score_re_group score_patterns_group)

lemma parse_score_by_first_match:
  "parse_score_from_analysis s =
     (case first_score_match s of
        None \<Rightarrow> 5
      | Some m \<Rightarrow> (case group1_int m of Some n \<Rightarrow> n | None \<Rightarrow> 5))"
  by (simp add: parse_score_from_analysis_def first_score_match_def split: option.splits)

text \<open>
  Claim C2, as the code has it. The score extractor returns for every string: it answers
  a non-negative integer; 5 when no pattern of the ordered list matches; and otherwise
  the value of the digits captured by the first pattern that matches (5 when \<open>int\<close>
  refuses them for their length). There is no clamp: the value is not bounded by 10.
\<close>

theorem parse_score_first_match_or_default:
  "0 \<le> parse_score_from_analysis s \<and>
   (first_score_match s = None \<longrightarrow> parse_score_from_analysis s = 5) \<and>
   (\<forall>m. first_score_match s = Some m \<longrightarrow>
      (\<exists>ds. group1 m = Some ds \<and> ds \<noteq> [] \<and> list_all is_digit ds \<and>
            parse_score_from_analysis s =
              (if length ds \<le> int_max_str_digits then dec_val ds else 5)))"
proof (cases "first_score_match s")
  case None
  then show ?thesis by (simp add: parse_score_by_first_match)
next
  case (Some m)
  from first_score_match_group[OF Some] obtain ds
    where ds: "group1 m = Some ds" "ds \<noteq> []" "list_all is_digit ds"
    by (auto simp: run_of_def split: option.splits)
  have r: "parse_score_from_analysis s = (if length ds \<le> int_max_str_digits then dec_val ds else 5)"
    by (simp add: parse_score_by_first_match Some group1_int_def ds py_int_def)
  moreover have "0 \<le> parse_score_from_analysis s"
    using dec_val_nonneg[OF ds(3)] by (simp add: r)
  ultimately show ?thesis using Some ds by simp
qed

text \<open>
  Claim C2 as stated fails: a labelled score of 95 is returned as it is, outside 1..10.
\<close>

theorem parse_score_out_of_range:
  "parse_score_from_analysis ''MATCH SCORE: 95'' = 95 \<and>
   \<not> (1 \<le> parse_score_from_analysis ''MATCH SCORE: 95'' \<and>
      parse_score_from_analysis ''MATCH SCORE: 95'' \<le> 10)"
proof -
  have "parse_score_from_analysis ''MATCH SCORE: 95'' = 95" by code_simp
  then show ?thesis by simp
qed

text \<open>
  The theorem of claim C2 at a string without a number and at a string with \<open>7/10\<close>.
\<close>

theorem parse_score_first_match_witness:
  "first_score_match ''no number here'' = None \<and>
   parse_score_from_analysis ''no number here'' = 5 \<and>
   first_score_match ''I give 7/10'' = Some \<lparr>group0 = ''7/10'', group1 = Some ''7''\<rparr> \<and>
   parse_score_from_analysis ''I give 7/10'' = 7"
proof -
  have a: "first_score_match ''no number here'' = None" by code_simp
  have b: "first_score_match ''I give 7/10'' = Some \<lparr>group0 = ''7/10'', group1 = Some ''7''\<rparr>"
    by code_simp
  have c: "dec_val ''7'' = 7" by code_simp
  from parse_score_first_match_or_default[of "''no number here''"] a
  have "parse_score_from_analysis ''no number here'' = 5" by blast
  moreover from parse_score_first_match_or_default[of "''I give 7/10''"] b c
  have "parse_score_from_analysis ''I give 7/10'' = 7"
    by (simp add: int_max_str_digits_def)
  ultimately show ?thesis using a b by simp
qed


section \<open>The brace span of a response\<close>



lemma greedy_None:
  "(\<And>k. lo \<le> k \<Longrightarrow> k \<le> lo + n \<Longrightarrow> f k = None) \<Longrightarrow> greedy f lo n = None"
  by (induction n) auto

lemma greedy_last:
  assumes "f k0 = Some r" "lo \<le> k0" "k0 \<le> lo + n"
    and "\<And>k. k0 < k \<Longrightarrow> k \<le> lo + n \<Longrightarrow> f k = None"
  shows "greedy f lo n = Some r"
  using assms
proof (induction n)
  case 0
  then show ?case by simp
next
  case (Suc n)
  show ?case
  proof (cases "k0 = lo + Suc n")
    case True
    with Suc.prems(1) show ?thesis by simp
  next
    case False
    with Suc.prems have le: "k0 \<le> lo + n" and none: "f (lo + Suc n) = None" by auto
    have "greedy f lo n = Some r"
      by (rule Suc.IH[OF Suc.prems(1,2) le]) (simp add: Suc.prems(4))
    with none show ?thesis by simp
  qed
qed

lemma takeWhile_True: "takeWhile (\<lambda>_. True) s = s"
  by (induction s) auto

lemma match_close_brace:
  "match_here False [One (Lit (CHR ''}''))] t None =
     (case t of [] \<Rightarrow> None | x # xs \<Rightarrow> if x = CHR ''}'' then Some (None, xs) else None)"
  by (simp split: list.splits)

lemma cls_match_Dot: "cls_match ic Dot = (\<lambda>_. True)"
  by (rule ext) simp

lemma match_object_unfold:
  "match_here False [One (Lit (CHR ''{'')), Star Dot, One (Lit (CHR ''}''))] s None =
     (case s of
        [] \<Rightarrow> None
      | x # t \<Rightarrow>
          if x = CHR ''{''
          then greedy (\<lambda>k. match_here False [One (Lit (CHR ''}''))] (drop k t) None) 0 (length t)
          else None)"
  by (simp add: repeat_def cls_match_Dot takeWhile_True split: list.splits)

lemma match_object_at_open:
  assumes "CHR ''}'' \<notin> set post"
  shows "match_here False [One (Lit (CHR ''{'')), Star Dot, One (Lit (CHR ''}''))]
           (CHR ''{'' # mid @ CHR ''}'' # post) None = Some (None, post)"
proof -
  define s where "s = mid @ CHR ''}'' # post"
  define f where "f = (\<lambda>k. match_here False [One (Lit (CHR ''}''))] (drop k s) None)"
  have at: "f (length mid) = Some (None, post)" by (simp add: f_def s_def)
  have later: "f k = None" if "length mid < k" for k
  proof -
    define j where "j = k - Suc (length mid)"
    have k: "k = length mid + Suc j" using that by (simp add: j_def)
    have d: "drop k s = drop j post" by (simp add: k s_def)
    have "CHR ''}'' \<notin> set (drop j post)" using assms by (meson in_set_dropD)
    then show ?thesis unfolding f_def d match_close_brace
      by (cases "drop j post") auto
  qed
  have len: "length mid \<le> 0 + length s" by (simp add: s_def)
  have "greedy f 0 (length s) = Some (None, post)"
    by (rule greedy_last[where ?k0.0 = "length mid"]) (simp_all add: at later s_def)
  moreover have "match_here False [One (Lit (CHR ''{'')), Star Dot, One (Lit (CHR ''}''))]
           (CHR ''{'' # s) None = greedy f 0 (length s)"
    unfolding match_object_unfold f_def by (simp only: list.case refl if_True)
  ultimately show ?thesis unfolding s_def[symmetric] by (simp only:)
qed

lemma match_object_needs_open:
  assumes "match_here False [One (Lit (CHR ''{'')), Star Dot, One (Lit (CHR ''}''))] s None = Some r"
  shows "\<exists>t. s = CHR ''{'' # t \<and> CHR ''}'' \<in> set t"
proof -
  from assms obtain t where s: "s = CHR ''{'' # t"
    and g: "greedy (\<lambda>k. match_here False [One (Lit (CHR ''}''))] (drop k t) None) 0 (length t) = Some r"
    unfolding match_object_unfold by (auto split: list.splits if_splits)
  from greedy_SomeD[OF g] obtain k
    where "match_here False [One (Lit (CHR ''}''))] (drop k t) None = Some r" by blast
  then have "CHR ''}'' \<in> set (drop k t)"
    unfolding match_close_brace by (cases "drop k t") (auto split: if_splits)
  then have "CHR ''}'' \<in> set t" by (meson in_set_dropD)
  with s show ?thesis by blast
qed

lemma search_object_None:
  assumes "CHR ''{'' \<notin> set s \<or> CHR ''}'' \<notin> set s"
  shows "re_search False json_object_re s = None"
  using assms
proof (induction s)
  case Nil
  then show ?case by (simp add: json_object_re_def)
next
  case (Cons c s)
  have "match_here False [One (Lit (CHR ''{'')), Star Dot, One (Lit (CHR ''}''))] (c # s) None = None"
  proof (rule ccontr)
    assume "\<not> ?thesis"
    then obtain r where "match_here False [One (Lit (CHR ''{'')), Star Dot, One (Lit (CHR ''}''))] (c # s) None = Some r"
      by blast
    from match_object_needs_open[OF this] Cons.prems show False by auto
  qed
  moreover from Cons have "re_search False json_object_re s = None" by auto
  ultimately show ?case by (simp add: json_object_re_def)
qed

lemma search_object_span:
  assumes "CHR ''{'' \<notin> set pre" "CHR ''}'' \<notin> set post"
  shows "re_search False json_object_re (span_of pre mid post) =
           Some \<lparr>group0 = CHR ''{'' # mid @ ''}'', group1 = None\<rparr>"
  using assms(1)
proof (induction pre)
  case Nil
  show ?case
    using match_object_at_open[OF assms(2), of mid]
    by (simp add: span_of_def json_object_re_def del: match_here.simps)
next
  case (Cons c pre)
  have "match_here False [One (Lit (CHR ''{'')), Star Dot, One (Lit (CHR ''}''))]
          (c # pre @ CHR ''{'' # mid @ CHR ''}'' # post) None = None"
    unfolding match_object_unfold using Cons.prems by auto
  with Cons show ?case
    by (simp add: span_of_def json_object_re_def del: match_here.simps)
qed

lemma not_space_braces: "\<not> is_space (CHR ''{'')" "\<not> is_space (CHR ''}'')"
  by (simp_all add: is_space_def py_space_chars_def)

lemma py_strip_span:
  "py_strip (span_of pre mid post) =
     span_of (dropWhile is_space pre) mid (rev (dropWhile is_space (rev post)))"
proof -
  have a: "dropWhile is_space (pre @ CHR ''{'' # mid @ CHR ''}'' # post)
             = dropWhile is_space pre @ CHR ''{'' # mid @ CHR ''}'' # post"
    by (rule dropWhile_append3) (rule not_space_braces)
  have b: "dropWhile is_space (rev post @ CHR ''}'' # rev mid @ CHR ''{'' # rev (dropWhile is_space pre))
             = dropWhile is_space (rev post) @ CHR ''}'' # rev mid @ CHR ''{'' # rev (dropWhile is_space pre)"
    by (rule dropWhile_append3) (rule not_space_braces)
  show ?thesis
    unfolding py_strip_def span_of_def a by (simp add: b)
qed

lemma span_of_Nil: "span_of [] mid [] = CHR ''{'' # mid @ ''}''"
  by (simp add: span_of_def)

lemma clean_response_span: "clean_response (CHR ''{'' # mid @ ''}'') = CHR ''{'' # mid @ ''}''"
proof -
  have "py_strip (span_of [] mid []) = span_of [] mid []" by (simp add: py_strip_span)
  then have "py_strip (CHR ''{'' # mid @ ''}'') = CHR ''{'' # mid @ ''}''" by (simp add: span_of_Nil)
  then show ?thesis by (simp add: clean_response_def startswith_def)
qed

lemma recover_json_span:
  assumes "CHR ''{'' \<notin> set pre" "CHR ''}'' \<notin> set post"
  shows "recover_json (span_of pre mid post) = json_loads (CHR ''{'' # mid @ ''}'')"
  by (simp add: recover_json_def search_object_span[OF assms])

lemma parse_mcq_response_span:
  assumes "CHR ''{'' \<notin> set pre" "CHR ''}'' \<notin> set post" "json_loads (CHR ''{'' # mid @ ''}'') = Inr v"
  shows "parse_mcq_response (span_of pre mid post) = Inr v"
  by (simp add: parse_mcq_response_def search_object_span[OF assms(1,2)] assms(3))

lemma startswith_append:
  assumes "startswith s (p @ q)"
  shows "startswith s p"
proof -
  have "take (length p) s = take (length p) (take (length (p @ q)) s)" by (simp add: min_def)
  also have "\<dots> = take (length p) (p @ q)" using assms by (simp only: startswith_def)
  also have "\<dots> = p" by simp
  finally show ?thesis by (simp add: startswith_def)
qed

lemma parse_invoice_response_unfenced_span:
  assumes "CHR ''{'' \<notin> set pre" "CHR ''}'' \<notin> set post"
    and "\<not> startswith (py_strip (span_of pre mid post)) ''```''"
    and "json_loads (py_strip (span_of pre mid post)) = Inl JSONDecodeError"
  shows "parse_invoice_response (span_of pre mid post) = json_loads (CHR ''{'' # mid @ ''}'')"
proof -
  let ?raw = "span_of pre mid post"
  have nf: "\<not> startswith (py_strip ?raw) (''```'' @ [CHR 0x0A])"
    using assms(3) startswith_append by blast
  have c: "clean_response ?raw = py_strip ?raw"
    using assms(3) nf by (simp add: clean_response_def Let_def)
  have p: "CHR ''{'' \<notin> set (dropWhile is_space pre)"
    using assms(1) by (auto dest: set_dropWhileD)
  have q: "CHR ''}'' \<notin> set (rev (dropWhile is_space (rev post)))"
    using assms(2) by (auto dest: set_dropWhileD)
  show ?thesis
    by (simp add: parse_invoice_response_def Let_def c assms(4))
       (simp add: py_strip_span recover_json_span[OF p q])
qed


lemma search_object_skip:
  assumes "CHR ''{'' \<notin> set pre"
  shows "re_search False json_object_re (pre @ t) = re_search False json_object_re t"
  using assms
proof (induction pre)
  case Nil
  show ?case by simp
next
  case (Cons c pre)
  have "match_here False [One (Lit (CHR ''{'')), Star Dot, One (Lit (CHR ''}''))]
          (c # pre @ t) None = None"
    unfolding match_object_unfold using Cons.prems by auto
  with Cons show ?case
    by (simp add: json_object_re_def del: match_here.simps)
qed

lemma dropWhile_to_last:
  assumes "y \<notin> set post"
  shows "rev (dropWhile (\<lambda>c. c \<noteq> y) (rev (xs @ y # post))) = xs @ [y]"
proof -
  have "dropWhile (\<lambda>c. c \<noteq> y) (rev post @ y # rev xs) = dropWhile (\<lambda>c. c \<noteq> y) (rev post) @ y # rev xs"
    by (rule dropWhile_append3) simp
  moreover have "dropWhile (\<lambda>c. c \<noteq> y) (rev post) = []"
    using assms by (auto simp: dropWhile_eq_Nil_conv)
  ultimately show ?thesis by simp
qed

lemma search_object_brace_span:
  "re_search False json_object_re r =
     (case brace_span r of None \<Rightarrow> None | Some g \<Rightarrow> Some \<lparr>group0 = g, group1 = None\<rparr>)"
proof -
  define pre where "pre = takeWhile (\<lambda>c. c \<noteq> CHR ''{'') r"
  define t where "t = dropWhile (\<lambda>c. c \<noteq> CHR ''{'') r"
  have r: "r = pre @ t" by (simp add: pre_def t_def)
  have pre: "CHR ''{'' \<notin> set pre" by (auto simp: pre_def dest: set_takeWhileD)
  have skip: "re_search False json_object_re r = re_search False json_object_re t"
    unfolding r by (rule search_object_skip[OF pre])
  show ?thesis
  proof (cases "CHR ''}'' \<in> set t")
    case False
    then have "re_search False json_object_re t = None"
      by (intro search_object_None) simp
    with False skip show ?thesis by (simp add: brace_span_def t_def Let_def)
  next
    case True
    then have "t \<noteq> []" by auto
    then obtain t' where t': "t = CHR ''{'' # t'"
      using hd_dropWhile[of "\<lambda>c. c \<noteq> CHR ''{''" r] by (cases t) (auto simp: t_def)
    with True have "CHR ''}'' \<in> set t'" by simp
    then obtain mid post where m: "t' = mid @ CHR ''}'' # post" and post: "CHR ''}'' \<notin> set post"
      using split_list_last[of "CHR ''}''" t'] by blast
    have s: "r = span_of pre mid post" by (simp add: r t' m span_of_def)
    have "re_search False json_object_re r = Some \<lparr>group0 = CHR ''{'' # mid @ ''}'', group1 = None\<rparr>"
      unfolding s by (rule search_object_span[OF pre post])
    moreover have "rev (dropWhile (\<lambda>c. c \<noteq> CHR ''}'') (rev ((CHR ''{'' # mid) @ CHR ''}'' # post)))
                     = (CHR ''{'' # mid) @ ''}''"
      by (rule dropWhile_to_last[OF post])
    then have "brace_span r = Some (CHR ''{'' # mid @ ''}'')"
      using True by (simp add: brace_span_def Let_def t_def[symmetric] t' m)
    ultimately show ?thesis by simp
  qed
qed

lemma search_object_None_iff:
  "brace_span r = None \<Longrightarrow> re_search False json_object_re r = None"
  by (simp add: search_object_brace_span)

lemma search_object_Some:
  "brace_span r = Some g \<Longrightarrow>
   re_search False json_object_re r = Some \<lparr>group0 = g, group1 = None\<rparr>"
  by (simp add: search_object_brace_span)


section \<open>The response parsers\<close>

lemma recovered_span_unfenced:
  assumes "CHR ''{'' \<notin> set pre" and "CHR ''}'' \<notin> set post"
    and "json_loads (CHR ''{'' # mid @ ''}'') = Inr v"
  shows "parse_invoice_response (CHR ''{'' # mid @ ''}'') = Inr v \<and>
         recover_json (span_of pre mid post) = Inr v \<and>
         parse_mcq_response (span_of pre mid post) = Inr v \<and>
         (\<not> startswith (py_strip (span_of pre mid post)) ''```'' \<and>
          json_loads (py_strip (span_of pre mid post)) = Inl JSONDecodeError \<longrightarrow>
            parse_invoice_response (span_of pre mid post) = Inr v)"
proof -
  have "parse_invoice_response (CHR ''{'' # mid @ ''}'') = Inr v"
    by (simp add: parse_invoice_response_def clean_response_span assms(3))
  moreover have "recover_json (span_of pre mid post) = Inr v"
    by (simp add: recover_json_span[OF assms(1,2)] assms(3))
  moreover have "parse_mcq_response (span_of pre mid post) = Inr v"
    by (rule parse_mcq_response_span[OF assms])
  moreover have "parse_invoice_response (span_of pre mid post) = Inr v"
    if "\<not> startswith (py_strip (span_of pre mid post)) ''```''"
      and "json_loads (py_strip (span_of pre mid post)) = Inl JSONDecodeError"
    using parse_invoice_response_unfenced_span[OF assms(1,2) that] assms(3) by simp
  ultimately show ?thesis by blast
qed

text \<open>
  Claim C6 at two fenced responses. Each holds the span \<open>{"a": 1}\<close> between texts
  without braces, and the strict parse of the span alone returns its record. The
  invoice parser recovers it from neither: after a plain fence the slice at 7 cuts the
  opening brace away, and without a closing fence the slice at -3 cuts the closing brace
  away, so the handler finds no span and raises. The MCQ parser, which cuts nothing,
  recovers the record from both.
\<close>

theorem fenced_span_not_recovered:
  \<open>parse_invoice_response ''{"a": 1}'' = Inr (PDict [(codes ''a'', PInt 1)]) \<and>
   brace_span (''```'' @ [CHR 0x0A] @ ''{"a": 1}'' @ [CHR 0x0A] @ ''```'' @ [CHR 0x0A] @ ''Hope that helps!'')
     = Some ''{"a": 1}'' \<and>
   parse_invoice_response
       (''```'' @ [CHR 0x0A] @ ''{"a": 1}'' @ [CHR 0x0A] @ ''```'' @ [CHR 0x0A] @ ''Hope that helps!'')
     = Inl (Exception ''Unable to parse JSON from model response'' None) \<and>
   parse_mcq_response
       (''```'' @ [CHR 0x0A] @ ''{"a": 1}'' @ [CHR 0x0A] @ ''```'' @ [CHR 0x0A] @ ''Hope that helps!'')
     = Inr (PDict [(codes ''a'', PInt 1)]) \<and>
   brace_span (''```json'' @ [CHR 0x0A] @ ''{"a": 1}'') = Some ''{"a": 1}'' \<and>
   parse_invoice_response (''```json'' @ [CHR 0x0A] @ ''{"a": 1}'')
     = Inl (Exception ''Unable to parse JSON from model response'' None) \<and>
   parse_mcq_response (''```json'' @ [CHR 0x0A] @ ''{"a": 1}'')
     = Inr (PDict [(codes ''a'', PInt 1)])\<close>
proof -
  have \<open>parse_invoice_response ''{"a": 1}'' = Inr (PDict [(codes ''a'', PInt 1)])\<close>
    by code_simp
  moreover have \<open>brace_span (''```'' @ [CHR 0x0A] @ ''{"a": 1}'' @ [CHR 0x0A] @ ''```'' @ [CHR 0x0A] @ ''Hope that helps!'')
     = Some ''{"a": 1}''\<close> by code_simp
  moreover have \<open>parse_invoice_response
       (''```'' @ [CHR 0x0A] @ ''{"a": 1}'' @ [CHR 0x0A] @ ''```'' @ [CHR 0x0A] @ ''Hope that helps!'')
     = Inl (Exception ''Unable to parse JSON from model response'' None)\<close> by code_simp
  moreover have \<open>parse_mcq_response
       (''```'' @ [CHR 0x0A] @ ''{"a": 1}'' @ [CHR 0x0A] @ ''```'' @ [CHR 0x0A] @ ''Hope that helps!'')
     = Inr (PDict [(codes ''a'', PInt 1)])\<close> by code_simp
  moreover have \<open>brace_span (''```json'' @ [CHR 0x0A] @ ''{"a": 1}'') = Some ''{"a": 1}''\<close>
    by code_simp
  moreover have \<open>parse_invoice_response (''```json'' @ [CHR 0x0A] @ ''{"a": 1}'')
     = Inl (Exception ''Unable to parse JSON from model response'' None)\<close> by code_simp
  moreover have \<open>parse_mcq_response (''```json'' @ [CHR 0x0A] @ ''{"a": 1}'')
     = Inr (PDict [(codes ''a'', PInt 1)])\<close> by code_simp
  ultimately show ?thesis by (intro conjI)
qed







lemma parse_invoice_response_InrD:
  assumes "parse_invoice_response r = Inr v"
  shows "json_loads (clean_response r) = Inr v \<or>
         (json_loads (clean_response r) = Inl JSONDecodeError \<and>
          (\<exists>m. re_search False json_object_re (clean_response r) = Some m \<and>
               json_loads (group0 m) = Inr v))"
  using assms
  by (auto simp: parse_invoice_response_def Let_def recover_json_def
      split: sum.splits if_splits option.splits)





lemma dict_keys_dict_set: "dict_keys (dict_set d k v) = insert k (dict_keys d)"
proof (induction d)
  case Nil
  show ?case by (simp add: dict_keys_def)
next
  case (Cons p d)
  obtain k' v' where p: "p = (k', v')" by (cases p)
  from Cons have ih: "fst ` set (dict_set d k v) = insert k (fst ` set d)"
    by (simp add: dict_keys_def)
  show ?case
  proof (cases "k' = k")
    case True
    then show ?thesis by (simp add: p dict_keys_def)
  next
    case False
    then show ?thesis by (simp add: p dict_keys_def ih insert_commute)
  qed
qed

lemma process_file_dict:
  assumes "extract_invoice_data c f = Inr (PDict d)"
  shows "process_file c f = PDict (dict_set d (codes ''filename'') (PStr (codes (name f))))"
  by (simp add: process_file_def assms set_item_def)

lemma extract_invoice_data_InrD:
  assumes "extract_invoice_data c f = Inr v"
  shows "\<exists>response. parse_invoice_response response = Inr v"
  using assms
  by (auto simp: extract_invoice_data_def split: sum.splits if_splits)

text \<open>
  Claim C7, as the code has it. A successful parse returns the value of the decoder, from
  the cleaned response or from its brace span, as it is: no default is substituted for a
  field the model left out. The batch run adds the key \<open>filename\<close> and no other.
\<close>

theorem parsed_record_is_decoded_value:
  "(\<forall>v. parse_invoice_response r = Inr v \<longrightarrow>
      json_loads (clean_response r) = Inr v \<or>
      (\<exists>m. re_search False json_object_re (clean_response r) = Some m \<and>
           json_loads (group0 m) = Inr v)) \<and>
   (\<forall>v. extract_invoice_data c f = Inr v \<longrightarrow>
      (\<exists>response. parse_invoice_response response = Inr v)) \<and>
   (\<forall>d. extract_invoice_data c f = Inr (PDict d) \<longrightarrow>
      (\<exists>d'. process_file c f = PDict d' \<and>
            dict_keys d' = insert (codes ''filename'') (dict_keys d)))"
  using parse_invoice_response_InrD[of r] extract_invoice_data_InrD[of c f]
    process_file_dict[of c f] dict_keys_dict_set
  by (intro conjI allI impI) (blast, blast, simp)

text \<open>
  Claim C7 as stated fails: on the malformed response of the specification's example
  the record holds the two fields the model wrote and no other; \<open>invoice_date\<close> is absent.
\<close>

theorem required_field_absent:
  \<open>parse_invoice_response
      ''Sure! Here is the data: {"invoice_number": "INV-1", "total_amount": 108.5} Hope that helps!''
     = Inr (PDict [(codes ''invoice_number'', PStr (codes ''INV-1'')),
                   (codes ''total_amount'', PFloat ''108.5'')]) \<and>
   ''invoice_date'' \<in> set required_fields \<and>
   codes ''invoice_date'' \<notin> dict_keys [(codes ''invoice_number'', PStr (codes ''INV-1'')),
                                       (codes ''total_amount'', PFloat ''108.5'')]\<close>
proof -
  have \<open>parse_invoice_response
      ''Sure! Here is the data: {"invoice_number": "INV-1", "total_amount": 108.5} Hope that helps!''
     = Inr (PDict [(codes ''invoice_number'', PStr (codes ''INV-1'')),
                   (codes ''total_amount'', PFloat ''108.5'')])\<close>
    by code_simp
  moreover have "''invoice_date'' \<in> set required_fields" by (simp add: required_fields_def)
  moreover have "codes ''invoice_date'' \<notin> dict_keys [(codes ''invoice_number'', PStr (codes ''INV-1'')),
                                       (codes ''total_amount'', PFloat ''108.5'')]"
    by (simp add: dict_keys_def codes_def)
  ultimately show ?thesis by (intro conjI)
qed

text \<open>
  The theorem of claim C7 at a response with one field, run through the batch step.
\<close>

theorem parsed_record_witness:
  \<open>parse_invoice_response ''{"total_amount": 12}'' = Inr (PDict [(codes ''total_amount'', PInt 12)]) \<and>
   json_loads (clean_response ''{"total_amount": 12}'') = Inr (PDict [(codes ''total_amount'', PInt 12)]) \<and>
   extract_invoice_data (\<lambda>t. Inr ''{"total_amount": 12}'')
       \<lparr>name = ''a.pdf'', pages = Inr [''Invoice 17'']\<rparr>
     = Inr (PDict [(codes ''total_amount'', PInt 12)]) \<and>
   (\<exists>d'. process_file (\<lambda>t. Inr ''{"total_amount": 12}'')
            \<lparr>name = ''a.pdf'', pages = Inr [''Invoice 17'']\<rparr> = PDict d' \<and>
         dict_keys d' = {codes ''filename'', codes ''total_amount''})\<close>
proof -
  let ?r = \<open>''{"total_amount": 12}''\<close>
  let ?c = "\<lambda>t::string. (Inr ?r :: exn + string)"
  let ?f = "\<lparr>name = ''a.pdf'', pages = Inr [''Invoice 17'']\<rparr>"
  let ?d = "[(codes ''total_amount'', PInt 12)]"
  have a: "parse_invoice_response ?r = Inr (PDict ?d)" by code_simp
  have b: "json_loads (clean_response ?r) = Inr (PDict ?d)" by code_simp
  have t: "extract_text_from_pdf ?f = Inr ''Invoice 17''" by code_simp
  have e: "extract_invoice_data ?c ?f = Inr (PDict ?d)"
    by (simp add: extract_invoice_data_def t a)
  from parsed_record_is_decoded_value[of ?r ?c ?f] e
  have "\<exists>d'. process_file ?c ?f = PDict d' \<and> dict_keys d' = insert (codes ''filename'') (dict_keys ?d)"
    by blast
  then have "\<exists>d'. process_file ?c ?f = PDict d' \<and> dict_keys d' = {codes ''filename'', codes ''total_amount''}"
    by (simp add: dict_keys_def)
  with a b e show ?thesis by blast
qed

text \<open>
  Claim C5 at a fenced response. The response starts with the fence and a newline, so
  the first branch cuts seven characters, not four: the span loses its first three
  characters, the strict parse fails, no brace span is left to recover, and the parser
  raises, though the content between the fences decodes.
\<close>

theorem fenced_response_loses_content:
  \<open>clean_response (''```'' @ [CHR 0x0A] @ ''{"a": 1}'' @ [CHR 0x0A] @ ''```'')
     = [CHR 0x22] @ '': 1}'' @ [CHR 0x0A] \<and>
   parse_invoice_response (''```'' @ [CHR 0x0A] @ ''{"a": 1}'' @ [CHR 0x0A] @ ''```'')
     = Inl (Exception ''Unable to parse JSON from model response'' None) \<and>
   json_loads (''{"a": 1}'' @ [CHR 0x0A]) = Inr (PDict [(codes ''a'', PInt 1)])\<close>
proof -
  have \<open>clean_response (''```'' @ [CHR 0x0A] @ ''{"a": 1}'' @ [CHR 0x0A] @ ''```'')
     = [CHR 0x22] @ '': 1}'' @ [CHR 0x0A]\<close> by code_simp
  moreover have \<open>parse_invoice_response (''```'' @ [CHR 0x0A] @ ''{"a": 1}'' @ [CHR 0x0A] @ ''```'')
     = Inl (Exception ''Unable to parse JSON from model response'' None)\<close> by code_simp
  moreover have \<open>json_loads (''{"a": 1}'' @ [CHR 0x0A]) = Inr (PDict [(codes ''a'', PInt 1)])\<close>
    by code_simp
  ultimately show ?thesis by blast
qed


section \<open>The label extractors\<close>

lemma cls_match_UpperAZ: "cls_match ic UpperAZ = is_upper_AZ"
  by (rule ext) simp

lemma recommendation_re_group:
  assumes "re_search False recommendation_re s = Some m"
  shows "run_of is_upper_AZ (group1 m)"
proof -
  have "run_of (cls_match False UpperAZ) (group1 m)"
    by (rule re_search_group[where pre = "lit ''RECOMMENDATION:'' @ [Star Space]" and post = "[]"])
       (use assms in \<open>simp_all add: recommendation_re_def plain_lit\<close>)
  then show ?thesis by (simp add: cls_match_UpperAZ)
qed

lemma find_label_token_closed: "find_label_token content \<in> set CATEGORIES"
proof (cases "List.find (\<lambda>cat. contains content cat) CATEGORIES")
  case None
  then show ?thesis by (simp add: find_label_token_def CATEGORIES_def)
next
  case (Some cat)
  then have "cat \<in> set CATEGORIES" by (auto simp: find_Some_iff)
  with Some show ?thesis by (simp add: find_label_token_def)
qed

lemma find_label_token_default:
  assumes "\<forall>cat\<in>set CATEGORIES. \<not> contains content cat"
  shows "find_label_token content = ''OTHER''"
proof -
  from assms have "List.find (\<lambda>cat. contains content cat) CATEGORIES = None"
    by (simp add: find_None_iff)
  then show ?thesis by (simp add: find_label_token_def)
qed

lemma OTHER_in_CATEGORIES: "''OTHER'' \<in> set CATEGORIES"
  by (simp add: CATEGORIES_def)

lemma codes_inj: "codes a = codes b \<longleftrightarrow> a = b"
proof -
  have "inj (of_char :: char \<Rightarrow> nat)"
    by (rule inj_on_inverseI[where g = char_of]) simp
  then have "inj (map (of_char :: char \<Rightarrow> nat))" by simp
  then show ?thesis unfolding codes_def by (auto dest: injD)
qed

lemma find_eq_member:
  "x \<in> set xs \<Longrightarrow> List.find (\<lambda>y. y = x) xs = Some x"
  by (induction xs) auto

lemma find_category_closed:
  "(case List.find (\<lambda>cat. codes cat = category) CATEGORIES of None \<Rightarrow> ''OTHER'' | Some cat \<Rightarrow> cat)
     \<in> set CATEGORIES"
proof (cases "List.find (\<lambda>cat. codes cat = category) CATEGORIES")
  case None
  then show ?thesis by (simp add: OTHER_in_CATEGORIES)
next
  case (Some cat)
  then have "cat \<in> set CATEGORIES" by (auto simp: find_Some_iff)
  with Some show ?thesis by simp
qed

lemma classify_content_closed: "classify_content content \<in> set CATEGORIES"
proof (cases "json_loads (py_strip content)")
  case (Inl e)
  then show ?thesis by (simp add: classify_content_def find_label_token_closed)
next
  case (Inr v)
  show ?thesis
  proof (cases v)
    case (PDict d)
    show ?thesis
    proof (cases "dict_get d (codes ''category'') (PStr (codes ''OTHER''))")
      case (PStr category)
      with Inr PDict show ?thesis
        using find_category_closed[of category] by (simp add: classify_content_def)
    qed (simp_all add: classify_content_def Inr PDict OTHER_in_CATEGORIES)
  qed (simp_all add: classify_content_def Inr find_label_token_closed)
qed

lemma classify_content_named:
  assumes "json_loads (py_strip content) = Inr (PDict d)"
    and "dict_get d (codes ''category'') (PStr (codes ''OTHER'')) = PStr (codes cat)"
    and "cat \<in> set CATEGORIES"
  shows "classify_content content = cat"
proof -
  have "(\<lambda>x. codes x = codes cat) = (\<lambda>x. x = cat)" by (rule ext) (simp add: codes_inj)
  then have "List.find (\<lambda>x. codes x = codes cat) CATEGORIES = Some cat"
    using find_eq_member[OF assms(3)] by simp
  then show ?thesis by (simp add: classify_content_def assms(1,2))
qed

lemma classify_content_unknown:
  assumes "json_loads (py_strip content) = Inr (PDict d)"
    and "\<forall>cat\<in>set CATEGORIES. dict_get d (codes ''category'') (PStr (codes ''OTHER'')) \<noteq> PStr (codes cat)"
  shows "classify_content content = ''OTHER''"
proof (cases "dict_get d (codes ''category'') (PStr (codes ''OTHER''))")
  case (PStr category)
  with assms(2) have "\<forall>cat\<in>set CATEGORIES. codes cat \<noteq> category" by auto
  then have "List.find (\<lambda>cat. codes cat = category) CATEGORIES = None"
    by (simp add: find_None_iff)
  with PStr show ?thesis by (simp add: classify_content_def assms(1))
qed (simp_all add: classify_content_def assms(1))

lemma classify_content_undecoded:
  assumes "\<forall>d. json_loads (py_strip content) \<noteq> Inr (PDict d)"
  shows "classify_content content = find_label_token content"
proof (cases "json_loads (py_strip content)")
  case (Inl e)
  then show ?thesis by (simp add: classify_content_def)
next
  case (Inr v)
  with assms show ?thesis by (cases v) (simp_all add: classify_content_def)
qed

lemma classify_text_closed:
  assumes "classify_text chat ticket = Inr label"
  shows "label \<in> set CATEGORIES"
  using assms classify_content_closed
  by (auto simp: classify_text_def split: sum.splits)

lemma parse_recommendation_fallback:
  assumes "re_search False recommendation_re s = None"
  shows "parse_recommendation_from_analysis s \<in> set RECOMMENDATIONS"
  by (simp add: parse_recommendation_from_analysis_def assms RECOMMENDATIONS_def)

lemma parse_recommendation_default:
  assumes "re_search False recommendation_re s = None"
    and "re_search True [lit ''hire'', lit ''recommend''] s = None"
    and "re_search True [lit ''interview''] s = None"
    and "re_search True [lit ''reject''] s = None"
  shows "parse_recommendation_from_analysis s = ''REVIEW''"
  by (simp add: parse_recommendation_from_analysis_def assms)

lemma parse_recommendation_labelled:
  assumes "re_search False recommendation_re s = Some m"
  shows "\<exists>g. group1 m = Some g \<and> g \<noteq> [] \<and> list_all is_upper_AZ g \<and>
             parse_recommendation_from_analysis s = g"
proof -
  from recommendation_re_group[OF assms] obtain g
    where g: "group1 m = Some g" "g \<noteq> []" "list_all is_upper_AZ g"
    by (auto simp: run_of_def split: option.splits)
  then show ?thesis by (simp add: parse_recommendation_from_analysis_def assms)
qed

text \<open>
  Claim C3, as the code has it. The ticket classifier is closed: for every content of the
  model's reply its label is one of \<open>CATEGORIES\<close>. The resume screener is closed only
  on its fallback path: without a labelled field it answers one of HIRE, INTERVIEW,
  REJECT, REVIEW; with a labelled field it answers the run of capital letters that
  follows \<open>RECOMMENDATION:\<close>, whatever word that is.

  The fallback labels are the designated ones. The classifier answers the category the
  decoded reply names when that is one of \<open>CATEGORIES\<close>, and \<open>OTHER\<close> when the reply
  names none of them, or does not decode to an object and holds no category as a token.
  The screener answers \<open>REVIEW\<close> when the analysis has neither a labelled field nor one
  of the keywords.
\<close>

theorem label_extractors_closed_or_captured:
  "classify_content content \<in> set CATEGORIES \<and>
   (\<forall>label. classify_text chat ticket = Inr label \<longrightarrow> label \<in> set CATEGORIES) \<and>
   (re_search False recommendation_re s = None \<longrightarrow>
      parse_recommendation_from_analysis s \<in> set RECOMMENDATIONS) \<and>
   (\<forall>m. re_search False recommendation_re s = Some m \<longrightarrow>
      (\<exists>g. group1 m = Some g \<and> g \<noteq> [] \<and> list_all is_upper_AZ g \<and>
           parse_recommendation_from_analysis s = g)) \<and>
   (\<forall>d cat. json_loads (py_strip content) = Inr (PDict d) \<and>
      dict_get d (codes ''category'') (PStr (codes ''OTHER'')) = PStr (codes cat) \<and>
      cat \<in> set CATEGORIES \<longrightarrow> classify_content content = cat) \<and>
   (\<forall>d. json_loads (py_strip content) = Inr (PDict d) \<and>
      (\<forall>cat\<in>set CATEGORIES.
         dict_get d (codes ''category'') (PStr (codes ''OTHER'')) \<noteq> PStr (codes cat)) \<longrightarrow>
      classify_content content = ''OTHER'') \<and>
   ((\<forall>d. json_loads (py_strip content) \<noteq> Inr (PDict d)) \<and>
    (\<forall>cat\<in>set CATEGORIES. \<not> contains content cat) \<longrightarrow>
      classify_content content = ''OTHER'') \<and>
   (re_search False recommendation_re s = None \<and>
    re_search True [lit ''hire'', lit ''recommend''] s = None \<and>
    re_search True [lit ''interview''] s = None \<and>
    re_search True [lit ''reject''] s = None \<longrightarrow>
      parse_recommendation_from_analysis s = ''REVIEW'')"
proof (intro conjI allI impI)
  show "classify_content content \<in> set CATEGORIES" by (rule classify_content_closed)
next
  fix label
  assume "classify_text chat ticket = Inr label"
  then show "label \<in> set CATEGORIES" by (rule classify_text_closed)
next
  assume "re_search False recommendation_re s = None"
  then show "parse_recommendation_from_analysis s \<in> set RECOMMENDATIONS"
    by (rule parse_recommendation_fallback)
next
  fix m
  assume "re_search False recommendation_re s = Some m"
  then show "\<exists>g. group1 m = Some g \<and> g \<noteq> [] \<and> list_all is_upper_AZ g \<and>
           parse_recommendation_from_analysis s = g"
    by (rule parse_recommendation_labelled)
next
  fix d cat
  assume "json_loads (py_strip content) = Inr (PDict d) \<and>
      dict_get d (codes ''category'') (PStr (codes ''OTHER'')) = PStr (codes cat) \<and>
      cat \<in> set CATEGORIES"
  then show "classify_content content = cat" by (simp add: classify_content_named)
next
  fix d
  assume "json_loads (py_strip content) = Inr (PDict d) \<and>
      (\<forall>cat\<in>set CATEGORIES.
         dict_get d (codes ''category'') (PStr (codes ''OTHER'')) \<noteq> PStr (codes cat))"
  then show "classify_content content = ''OTHER''" by (simp add: classify_content_unknown)
next
  assume a: "(\<forall>d. json_loads (py_strip content) \<noteq> Inr (PDict d)) \<and>
    (\<forall>cat\<in>set CATEGORIES. \<not> contains content cat)"
  then have "classify_content content = find_label_token content"
    by (simp add: classify_content_undecoded)
  with a show "classify_content content = ''OTHER''" by (simp add: find_label_token_default)
next
  assume "re_search False recommendation_re s = None \<and>
    re_search True [lit ''hire'', lit ''recommend''] s = None \<and>
    re_search True [lit ''interview''] s = None \<and>
    re_search True [lit ''reject''] s = None"
  then show "parse_recommendation_from_analysis s = ''REVIEW''"
    by (simp add: parse_recommendation_default)
qed

text \<open>
  Claim C3 as stated fails: a labelled field with another word is returned as it is.
\<close>

theorem recommendation_outside_enum:
  "parse_recommendation_from_analysis ''RECOMMENDATION: MAYBE - some doubts'' = ''MAYBE'' \<and>
   ''MAYBE'' \<notin> set RECOMMENDATIONS"
proof -
  have "parse_recommendation_from_analysis ''RECOMMENDATION: MAYBE - some doubts'' = ''MAYBE''"
    by code_simp
  then show ?thesis by (simp add: RECOMMENDATIONS_def)
qed

text \<open>
  The theorem of claim C3 at a reply that names a category, at a reply that names an
  unknown one, at a reply in prose, at two analyses without a labelled field, and at
  the analysis of the specification's example.
\<close>

theorem label_extractors_witness:
  \<open>classify_text (\<lambda>t. Inr ''{"category": "BILLING"}'') ''I was charged twice'' = Inr ''BILLING'' \<and>
   ''BILLING'' \<in> set CATEGORIES \<and>
   classify_content ''{"category": "BILLING"}'' = ''BILLING'' \<and>
   classify_content ''{"category": "SHIPPING"}'' = ''OTHER'' \<and>
   classify_content ''I am not sure.'' = ''OTHER'' \<and>
   re_search False recommendation_re ''We should interview this candidate.'' = None \<and>
   parse_recommendation_from_analysis ''We should interview this candidate.'' \<in> set RECOMMENDATIONS \<and>
   parse_recommendation_from_analysis ''Solid background.'' = ''REVIEW'' \<and>
   re_search False recommendation_re ''RECOMMENDATION: HIRE - strong fit''
     = Some \<lparr>group0 = ''RECOMMENDATION: HIRE'', group1 = Some ''HIRE''\<rparr> \<and>
   parse_recommendation_from_analysis ''RECOMMENDATION: HIRE - strong fit'' = ''HIRE''\<close>
proof -
  let ?chat = \<open>\<lambda>t::string. (Inr ''{"category": "BILLING"}'' :: exn + string)\<close>
  have a: "classify_text ?chat ''I was charged twice'' = Inr ''BILLING''" by code_simp
  have b: "re_search False recommendation_re ''We should interview this candidate.'' = None"
    by code_simp
  have c: "re_search False recommendation_re ''RECOMMENDATION: HIRE - strong fit''
     = Some \<lparr>group0 = ''RECOMMENDATION: HIRE'', group1 = Some ''HIRE''\<rparr>" by code_simp
  have d1: \<open>json_loads (py_strip ''{"category": "BILLING"}'')
     = Inr (PDict [(codes ''category'', PStr (codes ''BILLING''))])\<close> by code_simp
  have d2: "dict_get [(codes ''category'', PStr (codes ''BILLING''))] (codes ''category'')
       (PStr (codes ''OTHER'')) = PStr (codes ''BILLING'')" by code_simp
  have d3: "''BILLING'' \<in> set CATEGORIES" by (simp add: CATEGORIES_def)
  have e1: \<open>json_loads (py_strip ''{"category": "SHIPPING"}'')
     = Inr (PDict [(codes ''category'', PStr (codes ''SHIPPING''))])\<close> by code_simp
  have e2: "\<forall>cat\<in>set CATEGORIES.
      dict_get [(codes ''category'', PStr (codes ''SHIPPING''))] (codes ''category'')
        (PStr (codes ''OTHER'')) \<noteq> PStr (codes cat)"
    by (simp add: CATEGORIES_def dict_get_def codes_def)
  have f1: "json_loads (py_strip ''I am not sure.'') = Inl JSONDecodeError" by code_simp
  have f2: "\<forall>cat\<in>set CATEGORIES. \<not> contains ''I am not sure.'' cat"
    unfolding CATEGORIES_def by code_simp
  have g1: "re_search False recommendation_re ''Solid background.'' = None" by code_simp
  have g2: "re_search True [lit ''hire'', lit ''recommend''] ''Solid background.'' = None" by code_simp
  have g3: "re_search True [lit ''interview''] ''Solid background.'' = None" by code_simp
  have g4: "re_search True [lit ''reject''] ''Solid background.'' = None" by code_simp
  from label_extractors_closed_or_captured[of _ ?chat "''I was charged twice''" _] a
  have 1: "''BILLING'' \<in> set CATEGORIES" by blast
  from label_extractors_closed_or_captured[of _ _ _ "''We should interview this candidate.''"] b
  have 2: "parse_recommendation_from_analysis ''We should interview this candidate.'' \<in> set RECOMMENDATIONS"
    by blast
  from label_extractors_closed_or_captured[of _ _ _ "''RECOMMENDATION: HIRE - strong fit''"] c
  have 3: "parse_recommendation_from_analysis ''RECOMMENDATION: HIRE - strong fit'' = ''HIRE''"
    by auto
  have 4: \<open>classify_content ''{"category": "BILLING"}'' = ''BILLING''\<close>
    using label_extractors_closed_or_captured[of \<open>''{"category": "BILLING"}''\<close>] d1 d2 d3
    by simp
  have 5: \<open>classify_content ''{"category": "SHIPPING"}'' = ''OTHER''\<close>
    using label_extractors_closed_or_captured[of \<open>''{"category": "SHIPPING"}''\<close>] e1 e2
    by simp
  have 6: "classify_content ''I am not sure.'' = ''OTHER''"
    using label_extractors_closed_or_captured[of "''I am not sure.''"] f1 f2
    by simp
  have 7: "parse_recommendation_from_analysis ''Solid background.'' = ''REVIEW''"
    using label_extractors_closed_or_captured[of _ _ _ "''Solid background.''"] g1 g2 g3 g4
    by simp
  show ?thesis by (intro conjI) (rule a 1 4 5 6 b 2 7 c 3)+
qed


section \<open>The heuristic line parse\<close>

lemma not_marked_Nil: "\<not> startswith_any [] option_markers"
  by (simp add: startswith_any_def option_markers_def startswith_def)

lemma is_option_line_markers: "is_option_line l = startswith_any l option_markers"
  by (simp add: is_option_line_def startswith_any_def option_markers_def startswith_def
      numeral_2_eq_2)

lemma mcq_step_cases:
  "mcq_step st line0 =
     (if is_question_line (py_strip line0) then
        st\<lparr>questions := flush st, current_question := Some (py_strip line0), current_options := []\<rparr>
      else if is_option_line (py_strip line0) then
        st\<lparr>current_options := current_options st @ [py_strip line0]\<rparr>
      else st)"
proof (cases "py_strip line0 = []")
  case True
  then show ?thesis
    by (simp add: mcq_step_def is_question_line_def is_option_line_markers not_marked_Nil)
next
  case False
  then show ?thesis
    by (simp add: mcq_step_def Let_def is_question_line_def is_option_line_markers)
qed

lemma question_line_not_Nil: "is_question_line l \<Longrightarrow> l \<noteq> []"
  by (auto simp: is_question_line_def)

lemma question_not_option: "is_question_line l \<Longrightarrow> \<not> is_option_line l"
  by (simp add: is_question_line_def)

lemma flush_pending:
  "current_question st = Some q \<Longrightarrow> q \<noteq> [] \<Longrightarrow>
   flush st = questions st @ flushed q (current_options st)"
  by (simp add: flush_def flushed_def)

lemma flush_no_question: "current_question st = None \<Longrightarrow> flush st = questions st"
  by (simp add: flush_def)

lemma fold_pending:
  "current_question st = Some q \<Longrightarrow> q \<noteq> [] \<Longrightarrow>
   flush (foldl mcq_step st ls) =
     questions st
     @ flushed q (current_options st
                  @ filter is_option_line (takeWhile (\<lambda>x. \<not> is_question_line x) (map py_strip ls)))
     @ concat (map (\<lambda>(q, opts). flushed q opts) (group_items (map py_strip ls)))"
proof (induction ls arbitrary: st q)
  case Nil
  then show ?case by (simp add: flush_pending)
next
  case (Cons line0 ls)
  let ?l = "py_strip line0"
  show ?case
  proof (cases "is_question_line ?l")
    case True
    let ?st = "st\<lparr>questions := flush st, current_question := Some ?l, current_options := []\<rparr>"
    have step: "mcq_step st line0 = ?st" by (simp add: mcq_step_cases True)
    have "flush (foldl mcq_step ?st ls) =
            questions ?st
            @ flushed ?l (current_options ?st
                @ filter is_option_line (takeWhile (\<lambda>x. \<not> is_question_line x) (map py_strip ls)))
            @ concat (map (\<lambda>(q, opts). flushed q opts) (group_items (map py_strip ls)))"
      by (rule Cons.IH) (simp_all add: question_line_not_Nil[OF True])
    then show ?thesis
      using True by (simp add: step flush_pending[OF Cons.prems])
  next
    case False
    show ?thesis
    proof (cases "is_option_line ?l")
      case True
      let ?st = "st\<lparr>current_options := current_options st @ [?l]\<rparr>"
      have step: "mcq_step st line0 = ?st" by (simp add: mcq_step_cases False True)
      have "flush (foldl mcq_step ?st ls) =
            questions ?st
            @ flushed q (current_options ?st
                @ filter is_option_line (takeWhile (\<lambda>x. \<not> is_question_line x) (map py_strip ls)))
            @ concat (map (\<lambda>(q, opts). flushed q opts) (group_items (map py_strip ls)))"
        by (rule Cons.IH) (simp_all add: Cons.prems)
      then show ?thesis using False True by (simp add: step)
    next
      case other: False
      have step: "mcq_step st line0 = st" by (simp add: mcq_step_cases False other)
      from Cons.IH[OF Cons.prems] show ?thesis using False other by (simp add: step)
    qed
  qed
qed

lemma fold_no_question:
  "current_question st = None \<Longrightarrow>
   flush (foldl mcq_step st ls) =
     questions st @ concat (map (\<lambda>(q, opts). flushed q opts) (group_items (map py_strip ls)))"
proof (induction ls arbitrary: st)
  case Nil
  then show ?case by (simp add: flush_no_question)
next
  case (Cons line0 ls)
  let ?l = "py_strip line0"
  show ?case
  proof (cases "is_question_line ?l")
    case True
    let ?st = "st\<lparr>questions := flush st, current_question := Some ?l, current_options := []\<rparr>"
    have step: "mcq_step st line0 = ?st" by (simp add: mcq_step_cases True)
    have "flush (foldl mcq_step ?st ls) =
            questions ?st
            @ flushed ?l (current_options ?st
                @ filter is_option_line (takeWhile (\<lambda>x. \<not> is_question_line x) (map py_strip ls)))
            @ concat (map (\<lambda>(q, opts). flushed q opts) (group_items (map py_strip ls)))"
      by (rule fold_pending) (simp_all add: question_line_not_Nil[OF True])
    then show ?thesis
      using True by (simp add: step flush_no_question[OF Cons.prems])
  next
    case False
    show ?thesis
    proof (cases "is_option_line ?l")
      case True
      let ?st = "st\<lparr>current_options := current_options st @ [?l]\<rparr>"
      have step: "mcq_step st line0 = ?st" by (simp add: mcq_step_cases False True)
      have "flush (foldl mcq_step ?st ls) =
              questions ?st @ concat (map (\<lambda>(q, opts). flushed q opts) (group_items (map py_strip ls)))"
        by (rule Cons.IH) (simp add: Cons.prems)
      then show ?thesis using False by (simp add: step)
    next
      case other: False
      have step: "mcq_step st line0 = st" by (simp add: mcq_step_cases False other)
      from Cons.IH[OF Cons.prems] show ?thesis using False by (simp add: step)
    qed
  qed
qed


lemma concat_flushed:
  "concat (map (\<lambda>(q, opts). flushed q opts) xs)
     = map (\<lambda>(q, opts). mcq_item q opts) (filter (\<lambda>(q, opts). opts \<noteq> []) xs)"
  by (induction xs) (auto simp: flushed_def)

lemma parse_text_questions_items:
  "parse_text_questions response
     = map (\<lambda>(q, opts). mcq_item q opts) (line_items (map py_strip (split_nl response)))"
  unfolding parse_text_questions_def line_items_def
  by (subst fold_no_question) (simp_all add: concat_flushed)

text \<open>
  Claim C8 as stated fails: the source strips every line before it looks at it, so an
  indented option line is collected, and the item is kept. Taken as they are, the lines
  of this response hold a question line and no line prefixed with an option marker, so
  the line parse of the claim discards the item.
\<close>

theorem indented_option_line_collected:
  "split_nl (''What is 2+2?'' @ [CHR 0x0A] @ ''  A) 3'') = [''What is 2+2?'', ''  A) 3''] \<and>
   \<not> is_option_line ''  A) 3'' \<and>
   spec_line_parse (''What is 2+2?'' @ [CHR 0x0A] @ ''  A) 3'') = [] \<and>
   parse_text_questions (''What is 2+2?'' @ [CHR 0x0A] @ ''  A) 3'')
     = [PDict [(codes ''question'', PStr (codes ''What is 2+2?'')),
               (codes ''options'', PList [PStr (codes ''A) 3'')]),
               (codes ''correct_answer'', PStr (codes ''A'')),
               (codes ''explanation'', PStr (codes ''Please verify the correct answer.''))]]"
proof -
  have "split_nl (''What is 2+2?'' @ [CHR 0x0A] @ ''  A) 3'') = [''What is 2+2?'', ''  A) 3'']"
    by code_simp
  moreover have "\<not> is_option_line ''  A) 3''" by code_simp
  moreover have "spec_line_parse (''What is 2+2?'' @ [CHR 0x0A] @ ''  A) 3'') = []"
    by code_simp
  moreover have "parse_text_questions (''What is 2+2?'' @ [CHR 0x0A] @ ''  A) 3'')
     = [PDict [(codes ''question'', PStr (codes ''What is 2+2?'')),
               (codes ''options'', PList [PStr (codes ''A) 3'')]),
               (codes ''correct_answer'', PStr (codes ''A'')),
               (codes ''explanation'', PStr (codes ''Please verify the correct answer.''))]]"
    by code_simp
  ultimately show ?thesis by (intro conjI)
qed

text \<open>
  Claim C8, as the code has it. The fallback parser of the source, a loop over the lines
  with a current question and its collected options, computes the line parse of the
  specification on the lines stripped of their surrounding whitespace: every stripped
  line that holds a question mark and does not start with \<open>A)\<close>, \<open>B)\<close>, \<open>C)\<close> or \<open>D)\<close>
  starts an item; the item's sub-fields are the stripped lines starting with one of these
  markers up to the next question line or the end of the input; an item without
  sub-fields is discarded. Each item that is left becomes one record, in this order,
  with the stripped question line and the stripped option lines as its fields.
\<close>

theorem parse_text_response_is_stripped_line_parse:
  "parse_text_questions response
     = map (\<lambda>(q, opts).
              PDict [(codes ''question'', PStr (codes q)),
                     (codes ''options'', PList (map (\<lambda>opt. PStr (codes opt)) opts)),
                     (codes ''correct_answer'', PStr (codes ''A'')),
                     (codes ''explanation'', PStr (codes ''Please verify the correct answer.''))])
           (line_items (map py_strip (split_nl response))) \<and>
   parse_text_response response
     = PDict [(codes ''questions'',
         PList (map (\<lambda>(q, opts).
              PDict [(codes ''question'', PStr (codes q)),
                     (codes ''options'', PList (map (\<lambda>opt. PStr (codes opt)) opts)),
                     (codes ''correct_answer'', PStr (codes ''A'')),
                     (codes ''explanation'', PStr (codes ''Please verify the correct answer.''))])
           (line_items (map py_strip (split_nl response)))))]"
  by (simp add: parse_text_questions_items parse_text_response_def mcq_item_def)

text \<open>
  The theorem of claim C8 at a response with a question that collects two options, one
  of them indented and one holding a question mark, and a question without options.
\<close>

theorem parse_text_response_witness:
  "line_items (map py_strip (split_nl (''1. What is 2+2?'' @ [CHR 0x0A] @ ''  A) 3''
        @ [CHR 0x0A] @ ''B) 4?'' @ [CHR 0x0A] @ ''Why?'' @ [CHR 0x0A])))
     = [(''1. What is 2+2?'', [''A) 3'', ''B) 4?''])] \<and>
   parse_text_response (''1. What is 2+2?'' @ [CHR 0x0A] @ ''  A) 3'' @ [CHR 0x0A] @ ''B) 4?''
        @ [CHR 0x0A] @ ''Why?'' @ [CHR 0x0A])
     = PDict [(codes ''questions'',
         PList [PDict [(codes ''question'', PStr (codes ''1. What is 2+2?'')),
                       (codes ''options'', PList [PStr (codes ''A) 3''), PStr (codes ''B) 4?'')]),
                       (codes ''correct_answer'', PStr (codes ''A'')),
                       (codes ''explanation'', PStr (codes ''Please verify the correct answer.''))]])]"
proof -
  let ?r = "''1. What is 2+2?'' @ [CHR 0x0A] @ ''  A) 3'' @ [CHR 0x0A] @ ''B) 4?''
        @ [CHR 0x0A] @ ''Why?'' @ [CHR 0x0A]"
  have a: "line_items (map py_strip (split_nl ?r)) = [(''1. What is 2+2?'', [''A) 3'', ''B) 4?''])]"
    by code_simp
  have b: "parse_text_response ?r
     = PDict [(codes ''questions'',
         PList [PDict [(codes ''question'', PStr (codes ''1. What is 2+2?'')),
                       (codes ''options'', PList [PStr (codes ''A) 3''), PStr (codes ''B) 4?'')]),
                       (codes ''correct_answer'', PStr (codes ''A'')),
                       (codes ''explanation'', PStr (codes ''Please verify the correct answer.''))]])]"
    using parse_text_response_is_stripped_line_parse[of ?r] unfolding a by simp
  show ?thesis by (rule conjI[OF a b])
qed

text \<open>
  Claim C10. Every item of the fallback parser carries the answer key \<open>A\<close> and the fixed
  explanation, whatever the response says; the question and the options are the only
  fields taken from the text.
\<close>

theorem fallback_items_have_constant_answer:
  "\<forall>it \<in> set (parse_text_questions response).
     \<exists>q opts. it = PDict [(codes ''question'', PStr (codes q)),
                          (codes ''options'', PList (map (\<lambda>opt. PStr (codes opt)) opts)),
                          (codes ''correct_answer'', PStr (codes ''A'')),
                          (codes ''explanation'', PStr (codes ''Please verify the correct answer.''))]"
proof
  fix it
  assume "it \<in> set (parse_text_questions response)"
  then obtain q opts where "it = mcq_item q opts"
    by (auto simp: parse_text_questions_items)
  then show "\<exists>q opts. it =
      PDict [(codes ''question'', PStr (codes q)),
             (codes ''options'', PList (map (\<lambda>opt. PStr (codes opt)) opts)),
             (codes ''correct_answer'', PStr (codes ''A'')),
             (codes ''explanation'', PStr (codes ''Please verify the correct answer.''))]"
    unfolding mcq_item_def by (intro exI)
qed

text \<open>
  The theorem of claim C10 at a response whose second option claims to be the answer:
  the item still names \<open>A\<close>.
\<close>

theorem fallback_items_witness:
  "parse_text_questions (''What is 2+2?'' @ [CHR 0x0A] @ ''A) 3'' @ [CHR 0x0A] @ ''B) 4 (correct)'')
     = [PDict [(codes ''question'', PStr (codes ''What is 2+2?'')),
               (codes ''options'', PList [PStr (codes ''A) 3''), PStr (codes ''B) 4 (correct)'')]),
               (codes ''correct_answer'', PStr (codes ''A'')),
               (codes ''explanation'', PStr (codes ''Please verify the correct answer.''))]] \<and>
   (\<exists>q opts. parse_text_questions (''What is 2+2?'' @ [CHR 0x0A] @ ''A) 3'' @ [CHR 0x0A] @ ''B) 4 (correct)'')
     = [PDict [(codes ''question'', PStr (codes q)),
               (codes ''options'', PList (map (\<lambda>opt. PStr (codes opt)) opts)),
               (codes ''correct_answer'', PStr (codes ''A'')),
               (codes ''explanation'', PStr (codes ''Please verify the correct answer.''))]])"
proof -
  let ?r = "''What is 2+2?'' @ [CHR 0x0A] @ ''A) 3'' @ [CHR 0x0A] @ ''B) 4 (correct)''"
  let ?it = "PDict [(codes ''question'', PStr (codes ''What is 2+2?'')),
               (codes ''options'', PList [PStr (codes ''A) 3''), PStr (codes ''B) 4 (correct)'')]),
               (codes ''correct_answer'', PStr (codes ''A'')),
               (codes ''explanation'', PStr (codes ''Please verify the correct answer.''))]"
  have a: "parse_text_questions ?r = [?it]" by code_simp
  have b: "\<forall>it \<in> set [?it].
     \<exists>q opts. it = PDict [(codes ''question'', PStr (codes q)),
                          (codes ''options'', PList (map (\<lambda>opt. PStr (codes opt)) opts)),
                          (codes ''correct_answer'', PStr (codes ''A'')),
                          (codes ''explanation'', PStr (codes ''Please verify the correct answer.''))]"
    using fallback_items_have_constant_answer[of ?r] unfolding a .
  have c: "?it \<in> set [?it]" by (rule list.set_intros(1))
  from bspec[OF b c] obtain q opts
    where e: "?it = PDict [(codes ''question'', PStr (codes q)),
                          (codes ''options'', PList (map (\<lambda>opt. PStr (codes opt)) opts)),
                          (codes ''correct_answer'', PStr (codes ''A'')),
                          (codes ''explanation'', PStr (codes ''Please verify the correct answer.''))]"
    by (elim exE)
  have "[?it] = [PDict [(codes ''question'', PStr (codes q)),
                          (codes ''options'', PList (map (\<lambda>opt. PStr (codes opt)) opts)),
                          (codes ''correct_answer'', PStr (codes ''A'')),
                          (codes ''explanation'', PStr (codes ''Please verify the correct answer.''))]]"
    by (rule arg_cong[where f = "\<lambda>x. [x]", OF e])
  then have "\<exists>q opts. [?it] = [PDict [(codes ''question'', PStr (codes q)),
                          (codes ''options'', PList (map (\<lambda>opt. PStr (codes opt)) opts)),
                          (codes ''correct_answer'', PStr (codes ''A'')),
                          (codes ''explanation'', PStr (codes ''Please verify the correct answer.''))]]"
    by (intro exI)
  then show ?thesis unfolding a by (rule conjI[OF refl])
qed


section \<open>The ranking\<close>

lemma py_sorted_reverse_sorted: "sorted (rev (map key (py_sorted_reverse key xs)))"
  by (simp add: py_sorted_reverse_def rev_map)

lemma py_sorted_reverse_stable:
  "filter (\<lambda>x. key x = k) (py_sorted_reverse key xs) = filter (\<lambda>x. key x = k) xs"
proof -
  have "filter (\<lambda>x. key x = k) (rev (sort_key key (rev xs)))
          = rev (filter (\<lambda>x. key x = k) (sort_key key (rev xs)))"
    by (simp add: rev_filter)
  also have "\<dots> = rev (filter (\<lambda>x. key x = k) (rev xs))"
    by (simp only: sort_key_stable)
  also have "\<dots> = filter (\<lambda>x. key x = k) xs"
    by (simp add: rev_filter)
  finally show ?thesis by (simp add: py_sorted_reverse_def)
qed

lemma py_sorted_reverse_idem:
  "py_sorted_reverse key (py_sorted_reverse key xs) = py_sorted_reverse key xs"
proof -
  have "sort_key key (sort_key key (rev xs)) = sort_key key (rev xs)"
    by (rule sort_key_id_if_sorted) simp
  then show ?thesis by (simp add: py_sorted_reverse_def)
qed

lemma py_sorted_reverse_mset: "mset (py_sorted_reverse key xs) = mset xs"
  by (simp add: py_sorted_reverse_def)

lemma py_sorted_reverse_length: "length (py_sorted_reverse key xs) = length xs"
  by (simp add: py_sorted_reverse_def)

text \<open>
  Claim C9. The ranking of the batch result is \<open>sorted\<close> with the score as key and
  \<open>reverse=True\<close>, a function from the result list to a new list. It is idempotent; the
  entries of any one score keep the order they have in the result list; the scores
  descend; and the ranked list holds the entries of the result list, each as often.
\<close>

theorem ranking_stable_idempotent:
  "process_multiple_resumes an resume_files job_description
     = py_sorted_reverse score (foldl (resume_step an job_description) [] resume_files) \<and>
   py_sorted_reverse score (py_sorted_reverse score results) = py_sorted_reverse score results \<and>
   filter (\<lambda>r. score r = k) (py_sorted_reverse score results) = filter (\<lambda>r. score r = k) results \<and>
   sorted (rev (map score (py_sorted_reverse score results))) \<and>
   mset (py_sorted_reverse score results) = mset results"
  by (simp add: process_multiple_resumes_def py_sorted_reverse_idem py_sorted_reverse_stable
      py_sorted_reverse_sorted py_sorted_reverse_mset)

text \<open>
  The theorem of claim C9 at three results, two of them with the score 3.
\<close>

theorem ranking_witness:
  "py_sorted_reverse score
     [\<lparr>filename = ''a.pdf'', score = 3, recommendation = ''REJECT'', analysis = '''',
       key_info = '''', resume_text = ''...''\<rparr>,
      \<lparr>filename = ''b.pdf'', score = 8, recommendation = ''HIRE'', analysis = '''',
       key_info = '''', resume_text = ''...''\<rparr>,
      \<lparr>filename = ''c.pdf'', score = 3, recommendation = ''REVIEW'', analysis = '''',
       key_info = '''', resume_text = ''...''\<rparr>]
   = [\<lparr>filename = ''b.pdf'', score = 8, recommendation = ''HIRE'', analysis = '''',
       key_info = '''', resume_text = ''...''\<rparr>,
      \<lparr>filename = ''a.pdf'', score = 3, recommendation = ''REJECT'', analysis = '''',
       key_info = '''', resume_text = ''...''\<rparr>,
      \<lparr>filename = ''c.pdf'', score = 3, recommendation = ''REVIEW'', analysis = '''',
       key_info = '''', resume_text = ''...''\<rparr>] \<and>
   map filename (filter (\<lambda>r. score r = 3) (py_sorted_reverse score
     [\<lparr>filename = ''a.pdf'', score = 3, recommendation = ''REJECT'', analysis = '''',
       key_info = '''', resume_text = ''...''\<rparr>,
      \<lparr>filename = ''b.pdf'', score = 8, recommendation = ''HIRE'', analysis = '''',
       key_info = '''', resume_text = ''...''\<rparr>,
      \<lparr>filename = ''c.pdf'', score = 3, recommendation = ''REVIEW'', analysis = '''',
       key_info = '''', resume_text = ''...''\<rparr>]))
   = [''a.pdf'', ''c.pdf'']"
proof -
  let ?a = "\<lparr>filename = ''a.pdf'', score = 3, recommendation = ''REJECT'', analysis = '''',
       key_info = '''', resume_text = ''...''\<rparr>"
  let ?b = "\<lparr>filename = ''b.pdf'', score = 8, recommendation = ''HIRE'', analysis = '''',
       key_info = '''', resume_text = ''...''\<rparr>"
  let ?c = "\<lparr>filename = ''c.pdf'', score = 3, recommendation = ''REVIEW'', analysis = '''',
       key_info = '''', resume_text = ''...''\<rparr>"
  have s: "py_sorted_reverse score [?a, ?b, ?c] = [?b, ?a, ?c]"
    by (simp add: py_sorted_reverse_def)
  have "filter (\<lambda>r. score r = 3) (py_sorted_reverse score [?a, ?b, ?c])
          = filter (\<lambda>r. score r = 3) [?a, ?b, ?c]"
    by (rule ranking_stable_idempotent[THEN conjunct2, THEN conjunct2, THEN conjunct1])
  then have "map filename (filter (\<lambda>r. score r = 3) (py_sorted_reverse score [?a, ?b, ?c]))
          = [''a.pdf'', ''c.pdf'']" by simp
  with s show ?thesis by (rule conjI)
qed

section \<open>The batch runs\<close>

lemma foldl_append_map: "foldl (\<lambda>acc x. acc @ [g x]) a xs = a @ map g xs"
  by (induction xs arbitrary: a) simp_all

lemma process_multiple_files_map:
  "process_multiple_files c fs = map (process_file c) fs"
  by (simp add: process_multiple_files_def foldl_append_map)

lemma process_file_error:
  "extract_invoice_data c f = Inl e \<Longrightarrow> process_file c f = error_record f e"
  by (simp add: process_file_def)

lemma resume_step_append:
  "resume_step an jd results f = results @ resume_step an jd [] f"
  by (simp add: resume_step_def Let_def)

lemma foldl_resume_step:
  "foldl (resume_step an jd) a fs = a @ concat (map (resume_step an jd []) fs)"
proof (induction fs arbitrary: a)
  case Nil
  show ?case by simp
next
  case (Cons f fs)
  have "foldl (resume_step an jd) a (f # fs) = foldl (resume_step an jd) (resume_step an jd a f) fs"
    by simp
  also have "\<dots> = resume_step an jd a f @ concat (map (resume_step an jd []) fs)"
    by (rule Cons.IH)
  also have "\<dots> = (a @ resume_step an jd [] f) @ concat (map (resume_step an jd []) fs)"
    by (simp only: resume_step_append[of an jd a f])
  also have "\<dots> = a @ concat (map (resume_step an jd []) (f # fs))"
    by simp
  finally show ?case .
qed

lemma resume_step_length:
  "length (resume_step an jd [] f) = (if resume_extract_text_from_pdf f \<noteq> [] then 1 else 0)"
  by (simp add: resume_step_def Let_def)

lemma length_concat_resume_steps:
  "length (concat (map (resume_step an jd []) fs))
     = length (filter (\<lambda>f. resume_extract_text_from_pdf f \<noteq> []) fs)"
  by (induction fs) (simp_all add: resume_step_length)

lemma sort_key_short: "length xs \<le> 1 \<Longrightarrow> sort_key key xs = xs"
  by (cases xs) simp_all

lemma process_one_resume:
  "process_multiple_resumes an [f] jd = resume_step an jd [] f"
proof -
  have "length (resume_step an jd [] f) \<le> 1" by (simp add: resume_step_length)
  then have "length (rev (resume_step an jd [] f)) \<le> 1" by simp
  then have "sort_key score (rev (resume_step an jd [] f)) = rev (resume_step an jd [] f)"
    by (rule sort_key_short)
  then show ?thesis by (simp add: process_multiple_resumes_def py_sorted_reverse_def)
qed

lemma process_multiple_resumes_concat:
  "process_multiple_resumes an fs jd
     = py_sorted_reverse score (concat (map (\<lambda>f. process_multiple_resumes an [f] jd) fs))"
proof -
  have e: "(\<lambda>f. process_multiple_resumes an [f] jd) = resume_step an jd []"
    by (rule ext) (rule process_one_resume)
  show ?thesis
    unfolding e by (simp add: process_multiple_resumes_def foldl_resume_step)
qed

lemma process_multiple_resumes_length:
  "length (process_multiple_resumes an fs jd)
     = length (filter (\<lambda>f. resume_extract_text_from_pdf f \<noteq> []) fs)"
  by (simp add: process_multiple_resumes_def py_sorted_reverse_length foldl_resume_step
      length_concat_resume_steps)

lemma process_multiple_files_nth:
  assumes "i < length fs"
  shows "process_multiple_files c fs ! i = hd (process_multiple_files c [fs ! i])"
  using assms by (simp add: process_multiple_files_map)

lemma process_multiple_files_failure:
  assumes "k < length fs" and "extract_invoice_data c (fs ! k) = Inl e"
  shows "process_multiple_files c fs ! k = error_record (fs ! k) e"
  using assms by (simp add: process_multiple_files_map process_file_error)

lemma error_key_not_filename: "codes ''error'' \<noteq> codes ''filename''"
  by (simp add: codes_def)

lemma is_error_record_error_record: "is_error_record (error_record f e)"
  by (simp add: is_error_record_def error_record_def dict_keys_def)

lemma process_file_not_dict:
  assumes "extract_invoice_data c f = Inr v" and "\<forall>d. v \<noteq> PDict d"
  shows "process_file c f = error_record f TypeError"
  using assms by (cases v) (simp_all add: process_file_def set_item_def)

lemma is_error_record_dict_set:
  "is_error_record (PDict (dict_set d (codes ''filename'') v)) \<longleftrightarrow> codes ''error'' \<in> dict_keys d"
  by (simp add: is_error_record_def dict_keys_dict_set error_key_not_filename)

lemma is_error_record_process_file:
  "is_error_record (process_file c f) =
     (case extract_invoice_data c f of
        Inl e \<Rightarrow> True
      | Inr v \<Rightarrow> (case v of PDict d \<Rightarrow> codes ''error'' \<in> dict_keys d | _ \<Rightarrow> True))"
proof (cases "extract_invoice_data c f")
  case (Inl e)
  then show ?thesis by (simp add: process_file_error is_error_record_error_record)
next
  case (Inr v)
  show ?thesis
  proof (cases "\<exists>d. v = PDict d")
    case True
    then obtain d where d: "v = PDict d" by (elim exE)
    from Inr d show ?thesis
      by (simp add: process_file_dict is_error_record_dict_set)
  next
    case False
    then have n: "\<forall>d. v \<noteq> PDict d" by simp
    from process_file_not_dict[OF Inr n] Inr n show ?thesis
      by (cases v) (simp_all add: is_error_record_error_record)
  qed
qed

lemma count_error_records:
  "length (filter is_error_record (process_multiple_files c fs)) =
   length (filter (\<lambda>f. case extract_invoice_data c f of
                          Inl e \<Rightarrow> True
                        | Inr v \<Rightarrow> (case v of PDict d \<Rightarrow> codes ''error'' \<in> dict_keys d | _ \<Rightarrow> True)) fs)"
proof -
  have "filter is_error_record (map (process_file c) fs)
          = map (process_file c) (filter (\<lambda>f. is_error_record (process_file c f)) fs)"
    by (simp add: filter_map comp_def)
  then show ?thesis
    by (simp add: process_multiple_files_map is_error_record_process_file)
qed

lemma process_one_resume_failed_completion:
  assumes "resume_extract_text_from_pdf f \<noteq> []"
    and "chain an (take 4000 (resume_extract_text_from_pdf f)) (take 2000 jd) = Inl msg"
  shows "process_multiple_resumes an [f] jd =
     [\<lparr>filename = rname f,
       score = parse_score_from_analysis (''Analysis error: '' @ msg),
       recommendation = parse_recommendation_from_analysis (''Analysis error: '' @ msg),
       analysis = ''Analysis error: '' @ msg,
       key_info = extract_key_info an (resume_extract_text_from_pdf f),
       resume_text = take 500 (resume_extract_text_from_pdf f) @ ''...''\<rparr>]"
  using assms
  by (simp add: process_one_resume resume_step_def Let_def analyze_resume_def)

text \<open>
  Claim C4, as the code has it. The invoice batch run isolates failures: it returns one
  record per file, in input order; the record at a position is the record of running
  that file alone; a file whose extraction raises gives the error record at its
  position, and so does a file whose decoded value is no object. A file whose value is
  an object gives that object with the key \<open>filename\<close> set, which the display counts
  as a failure exactly when the object has a key \<open>error\<close>. So the records counted as
  failures are as many as the files that raise or answer an object with that key.

  The resume batch run has no failure record: it returns one record for each file whose
  text extraction yields text, namely the records of running each file alone, ranked by
  score. A file whose completion raises gives an ordinary scored record, its analysis
  being the text of the error.
\<close>

theorem batch_runs_per_item:
  "length (process_multiple_files c fs) = length fs \<and>
   (\<forall>i < length fs. process_multiple_files c fs ! i = hd (process_multiple_files c [fs ! i])) \<and>
   (\<forall>k < length fs. \<forall>e. extract_invoice_data c (fs ! k) = Inl e \<longrightarrow>
      process_multiple_files c fs ! k = error_record (fs ! k) e \<and>
      is_error_record (process_multiple_files c fs ! k)) \<and>
   (\<forall>k < length fs. \<forall>v. extract_invoice_data c (fs ! k) = Inr v \<and> (\<forall>d. v \<noteq> PDict d) \<longrightarrow>
      process_multiple_files c fs ! k = error_record (fs ! k) TypeError) \<and>
   (\<forall>k < length fs. \<forall>d. extract_invoice_data c (fs ! k) = Inr (PDict d) \<longrightarrow>
      process_multiple_files c fs ! k
        = PDict (dict_set d (codes ''filename'') (PStr (codes (name (fs ! k))))) \<and>
      (is_error_record (process_multiple_files c fs ! k) \<longleftrightarrow> codes ''error'' \<in> dict_keys d)) \<and>
   length (filter is_error_record (process_multiple_files c fs)) =
     length (filter (\<lambda>f. case extract_invoice_data c f of
                            Inl e \<Rightarrow> True
                          | Inr v \<Rightarrow> (case v of PDict d \<Rightarrow> codes ''error'' \<in> dict_keys d
                                               | _ \<Rightarrow> True)) fs) \<and>
   length (process_multiple_resumes an rs jd)
     = length (filter (\<lambda>f. resume_extract_text_from_pdf f \<noteq> []) rs) \<and>
   process_multiple_resumes an rs jd
     = py_sorted_reverse score (concat (map (\<lambda>f. process_multiple_resumes an [f] jd) rs)) \<and>
   (\<forall>f msg. resume_extract_text_from_pdf f \<noteq> [] \<and>
      chain an (take 4000 (resume_extract_text_from_pdf f)) (take 2000 jd) = Inl msg \<longrightarrow>
      process_multiple_resumes an [f] jd =
        [\<lparr>filename = rname f,
          score = parse_score_from_analysis (''Analysis error: '' @ msg),
          recommendation = parse_recommendation_from_analysis (''Analysis error: '' @ msg),
          analysis = ''Analysis error: '' @ msg,
          key_info = extract_key_info an (resume_extract_text_from_pdf f),
          resume_text = take 500 (resume_extract_text_from_pdf f) @ ''...''\<rparr>])"
proof -
  have "length (process_multiple_files c fs) = length fs"
    by (simp add: process_multiple_files_map)
  moreover have "\<forall>i < length fs.
      process_multiple_files c fs ! i = hd (process_multiple_files c [fs ! i])"
    using process_multiple_files_nth by blast
  moreover have "\<forall>k < length fs. \<forall>e. extract_invoice_data c (fs ! k) = Inl e \<longrightarrow>
      process_multiple_files c fs ! k = error_record (fs ! k) e \<and>
      is_error_record (process_multiple_files c fs ! k)"
    using process_multiple_files_failure
    by (simp add: is_error_record_error_record)
  moreover have "\<forall>k < length fs. \<forall>v. extract_invoice_data c (fs ! k) = Inr v \<and> (\<forall>d. v \<noteq> PDict d) \<longrightarrow>
      process_multiple_files c fs ! k = error_record (fs ! k) TypeError"
    by (simp add: process_multiple_files_map process_file_not_dict)
  moreover have "\<forall>k < length fs. \<forall>d. extract_invoice_data c (fs ! k) = Inr (PDict d) \<longrightarrow>
      process_multiple_files c fs ! k
        = PDict (dict_set d (codes ''filename'') (PStr (codes (name (fs ! k))))) \<and>
      (is_error_record (process_multiple_files c fs ! k) \<longleftrightarrow> codes ''error'' \<in> dict_keys d)"
    by (simp add: process_multiple_files_map process_file_dict is_error_record_dict_set)
  moreover note count_error_records[of c fs]
    process_multiple_resumes_length[of an rs jd]
    process_multiple_resumes_concat[of an rs jd]
  moreover have "\<forall>f msg. resume_extract_text_from_pdf f \<noteq> [] \<and>
      chain an (take 4000 (resume_extract_text_from_pdf f)) (take 2000 jd) = Inl msg \<longrightarrow>
      process_multiple_resumes an [f] jd =
        [\<lparr>filename = rname f,
          score = parse_score_from_analysis (''Analysis error: '' @ msg),
          recommendation = parse_recommendation_from_analysis (''Analysis error: '' @ msg),
          analysis = ''Analysis error: '' @ msg,
          key_info = extract_key_info an (resume_extract_text_from_pdf f),
          resume_text = take 500 (resume_extract_text_from_pdf f) @ ''...''\<rparr>]"
    using process_one_resume_failed_completion by blast
  ultimately show ?thesis by (intro conjI)
qed

text \<open>
  Claim C4 as stated fails in both batch runs. Of two resumes, the completion of the
  first raising, two records come back and none is a failure record: the first resume
  is scored 5, with the text of the error as its analysis, and ranked after the second.
  Of two invoices, the completion of the first raising and the model answering an object
  with a key \<open>error\<close> for the second, two records are counted as failures, not one.
\<close>

theorem failed_completion_records:
  \<open>process_multiple_resumes
      \<lparr>chain = (\<lambda>t j. if t = ''Ten years of Cobol'' then Inl ''timed out''
                       else Inr ''MATCH SCORE: 8''),
       extraction_chain = (\<lambda>t. Inr ''{}'')\<rparr>
      [\<lparr>rname = ''a.pdf'', rpages = Some [''Ten years of Cobol'']\<rparr>,
       \<lparr>rname = ''b.pdf'', rpages = Some [''Ten years of Python'']\<rparr>]
      ''Python developer''
   = [\<lparr>filename = ''b.pdf'', score = 8, recommendation = ''REVIEW'',
       analysis = ''MATCH SCORE: 8'', key_info = ''{}'',
       resume_text = ''Ten years of Python...''\<rparr>,
      \<lparr>filename = ''a.pdf'', score = 5, recommendation = ''REVIEW'',
       analysis = ''Analysis error: timed out'', key_info = ''{}'',
       resume_text = ''Ten years of Cobol...''\<rparr>] \<and>
   process_multiple_files
      (\<lambda>t. if t = ''Invoice A'' then Inl (LibError ''timed out'') else Inr ''{"error": null}'')
      [\<lparr>name = ''a.pdf'', pages = Inr [''Invoice A'']\<rparr>,
       \<lparr>name = ''b.pdf'', pages = Inr [''Invoice B'']\<rparr>]
   = [PDict [(codes ''filename'', PStr (codes ''a.pdf'')),
             (codes ''error'',
                PStrOf (Exception ''Error processing invoice: '' (Some (LibError ''timed out''))))],
      PDict [(codes ''error'', PNone), (codes ''filename'', PStr (codes ''b.pdf''))]] \<and>
   length (filter is_error_record
     (process_multiple_files
        (\<lambda>t. if t = ''Invoice A'' then Inl (LibError ''timed out'') else Inr ''{"error": null}'')
        [\<lparr>name = ''a.pdf'', pages = Inr [''Invoice A'']\<rparr>,
         \<lparr>name = ''b.pdf'', pages = Inr [''Invoice B'']\<rparr>])) = 2\<close>
proof -
  have a: \<open>process_multiple_resumes
      \<lparr>chain = (\<lambda>t j. if t = ''Ten years of Cobol'' then Inl ''timed out''
                       else Inr ''MATCH SCORE: 8''),
       extraction_chain = (\<lambda>t. Inr ''{}'')\<rparr>
      [\<lparr>rname = ''a.pdf'', rpages = Some [''Ten years of Cobol'']\<rparr>,
       \<lparr>rname = ''b.pdf'', rpages = Some [''Ten years of Python'']\<rparr>]
      ''Python developer''
   = [\<lparr>filename = ''b.pdf'', score = 8, recommendation = ''REVIEW'',
       analysis = ''MATCH SCORE: 8'', key_info = ''{}'',
       resume_text = ''Ten years of Python...''\<rparr>,
      \<lparr>filename = ''a.pdf'', score = 5, recommendation = ''REVIEW'',
       analysis = ''Analysis error: timed out'', key_info = ''{}'',
       resume_text = ''Ten years of Cobol...''\<rparr>]\<close>
    by code_simp
  have b: \<open>process_multiple_files
      (\<lambda>t. if t = ''Invoice A'' then Inl (LibError ''timed out'') else Inr ''{"error": null}'')
      [\<lparr>name = ''a.pdf'', pages = Inr [''Invoice A'']\<rparr>,
       \<lparr>name = ''b.pdf'', pages = Inr [''Invoice B'']\<rparr>]
   = [PDict [(codes ''filename'', PStr (codes ''a.pdf'')),
             (codes ''error'',
                PStrOf (Exception ''Error processing invoice: '' (Some (LibError ''timed out''))))],
      PDict [(codes ''error'', PNone), (codes ''filename'', PStr (codes ''b.pdf''))]]\<close>
    by code_simp
  have c: \<open>length (filter is_error_record
     (process_multiple_files
        (\<lambda>t. if t = ''Invoice A'' then Inl (LibError ''timed out'') else Inr ''{"error": null}'')
        [\<lparr>name = ''a.pdf'', pages = Inr [''Invoice A'']\<rparr>,
         \<lparr>name = ''b.pdf'', pages = Inr [''Invoice B'']\<rparr>])) = 2\<close>
    unfolding b by (simp add: is_error_record_def dict_keys_def)
  show ?thesis by (intro conjI) (rule a b c)+
qed

text \<open>
  The theorem of claim C4 at three invoices, the completion of the second raising, and
  at a resume whose completion raises.
\<close>

theorem batch_runs_witness:
  \<open>process_multiple_files
      (\<lambda>t. if t = ''Invoice B'' then Inl (LibError ''timed out'') else Inr ''{"total_amount": 1}'')
      [\<lparr>name = ''a.pdf'', pages = Inr [''Invoice A'']\<rparr>,
       \<lparr>name = ''b.pdf'', pages = Inr [''Invoice B'']\<rparr>,
       \<lparr>name = ''c.pdf'', pages = Inr [''Invoice C'']\<rparr>]
   = [PDict [(codes ''total_amount'', PInt 1), (codes ''filename'', PStr (codes ''a.pdf''))],
      error_record \<lparr>name = ''b.pdf'', pages = Inr [''Invoice B'']\<rparr>
        (Exception ''Error processing invoice: '' (Some (LibError ''timed out''))),
      PDict [(codes ''total_amount'', PInt 1), (codes ''filename'', PStr (codes ''c.pdf''))]] \<and>
   process_multiple_files
      (\<lambda>t. if t = ''Invoice B'' then Inl (LibError ''timed out'') else Inr ''{"total_amount": 1}'')
      [\<lparr>name = ''a.pdf'', pages = Inr [''Invoice A'']\<rparr>,
       \<lparr>name = ''b.pdf'', pages = Inr [''Invoice B'']\<rparr>,
       \<lparr>name = ''c.pdf'', pages = Inr [''Invoice C'']\<rparr>] ! 1
   = error_record \<lparr>name = ''b.pdf'', pages = Inr [''Invoice B'']\<rparr>
        (Exception ''Error processing invoice: '' (Some (LibError ''timed out''))) \<and>
   length (filter is_error_record
     (process_multiple_files
        (\<lambda>t. if t = ''Invoice B'' then Inl (LibError ''timed out'') else Inr ''{"total_amount": 1}'')
        [\<lparr>name = ''a.pdf'', pages = Inr [''Invoice A'']\<rparr>,
         \<lparr>name = ''b.pdf'', pages = Inr [''Invoice B'']\<rparr>,
         \<lparr>name = ''c.pdf'', pages = Inr [''Invoice C'']\<rparr>])) = 1 \<and>
   process_multiple_resumes
      \<lparr>chain = (\<lambda>t j. Inl ''timed out''), extraction_chain = (\<lambda>t. Inr ''{}'')\<rparr>
      [\<lparr>rname = ''a.pdf'', rpages = Some [''Ten years of Cobol'']\<rparr>] ''Python developer''
   = [\<lparr>filename = ''a.pdf'', score = 5, recommendation = ''REVIEW'',
       analysis = ''Analysis error: timed out'', key_info = ''{}'',
       resume_text = ''Ten years of Cobol...''\<rparr>]\<close>
proof -
  let ?c = \<open>\<lambda>t. if t = ''Invoice B'' then (Inl (LibError ''timed out'') :: exn + string)
                 else Inr ''{"total_amount": 1}''\<close>
  let ?a = "\<lparr>name = ''a.pdf'', pages = Inr [''Invoice A'']\<rparr>"
  let ?b = "\<lparr>name = ''b.pdf'', pages = Inr [''Invoice B'']\<rparr>"
  let ?d = "\<lparr>name = ''c.pdf'', pages = Inr [''Invoice C'']\<rparr>"
  let ?e = "Exception ''Error processing invoice: '' (Some (LibError ''timed out''))"
  let ?an = "\<lparr>chain = (\<lambda>t j. (Inl ''timed out'' :: string + string)),
              extraction_chain = (\<lambda>t. (Inr ''{}'' :: string + string))\<rparr>"
  let ?f = "\<lparr>rname = ''a.pdf'', rpages = Some [''Ten years of Cobol'']\<rparr>"
  note inst = batch_runs_per_item[of ?c "[?a, ?b, ?d]" ?an "[?f]" "''Python developer''"]
  have all: "process_multiple_files ?c [?a, ?b, ?d]
   = [PDict [(codes ''total_amount'', PInt 1), (codes ''filename'', PStr (codes ''a.pdf''))],
      error_record ?b ?e,
      PDict [(codes ''total_amount'', PInt 1), (codes ''filename'', PStr (codes ''c.pdf''))]]"
    by code_simp
  have k: "(1::nat) < length [?a, ?b, ?d]" by simp
  have x: "extract_invoice_data ?c ([?a, ?b, ?d] ! 1) = Inl ?e" by code_simp
  have n: "[?a, ?b, ?d] ! 1 = ?b" by simp
  from inst k x
  have "process_multiple_files ?c [?a, ?b, ?d] ! 1 = error_record ([?a, ?b, ?d] ! 1) ?e"
    by blast
  then have one: "process_multiple_files ?c [?a, ?b, ?d] ! 1 = error_record ?b ?e"
    by (simp only: n)
  have xa: \<open>extract_invoice_data ?c ?a = Inr (PDict [(codes ''total_amount'', PInt 1)])\<close>
    by code_simp
  have xb: "extract_invoice_data ?c ?b = Inl ?e" by code_simp
  have xd: \<open>extract_invoice_data ?c ?d = Inr (PDict [(codes ''total_amount'', PInt 1)])\<close>
    by code_simp
  have nk: "codes ''error'' \<notin> dict_keys [(codes ''total_amount'', PInt 1)]"
    by (simp add: dict_keys_def codes_def)
  from inst have "length (filter is_error_record (process_multiple_files ?c [?a, ?b, ?d])) =
     length (filter (\<lambda>f. case extract_invoice_data ?c f of
                            Inl e \<Rightarrow> True
                          | Inr v \<Rightarrow> (case v of PDict d \<Rightarrow> codes ''error'' \<in> dict_keys d
                                               | _ \<Rightarrow> True)) [?a, ?b, ?d])"
    by (elim conjE)
  then have cnt: "length (filter is_error_record (process_multiple_files ?c [?a, ?b, ?d])) = 1"
    by (simp add: xa xb xd nk)
  have t: "resume_extract_text_from_pdf ?f = ''Ten years of Cobol''" by code_simp
  have s5: "parse_score_from_analysis ''Analysis error: timed out'' = 5" by code_simp
  have rv: "parse_recommendation_from_analysis ''Analysis error: timed out'' = ''REVIEW''"
    by code_simp
  have ki: "extract_key_info ?an ''Ten years of Cobol'' = ''{}''" by code_simp
  from inst have "\<forall>f msg. resume_extract_text_from_pdf f \<noteq> [] \<and>
      chain ?an (take 4000 (resume_extract_text_from_pdf f)) (take 2000 ''Python developer'') = Inl msg \<longrightarrow>
      process_multiple_resumes ?an [f] ''Python developer'' =
        [\<lparr>filename = rname f,
          score = parse_score_from_analysis (''Analysis error: '' @ msg),
          recommendation = parse_recommendation_from_analysis (''Analysis error: '' @ msg),
          analysis = ''Analysis error: '' @ msg,
          key_info = extract_key_info ?an (resume_extract_text_from_pdf f),
          resume_text = take 500 (resume_extract_text_from_pdf f) @ ''...''\<rparr>]"
    by (elim conjE)
  from this[THEN spec, of ?f, THEN spec, of "''timed out''"]
  have res: "process_multiple_resumes ?an [?f] ''Python developer''
   = [\<lparr>filename = ''a.pdf'', score = 5, recommendation = ''REVIEW'',
       analysis = ''Analysis error: timed out'', key_info = ''{}'',
       resume_text = ''Ten years of Cobol...''\<rparr>]"
    by (simp add: t s5 rv ki)
  show ?thesis by (intro conjI) (rule all one cnt res)+
qed

end
